theory Spec2Isabelle
  imports Main "HOL-Library.Word"
begin

unbundle bit_operations_syntax

section \<open>The Dalvik hash table: data model\<close>

text \<open>
  The table stores opaque \<^verbatim>\<open>void*\<close> values in an array of \<^verbatim>\<open>HashEntry\<close> structs, each a
  stored hash and a data pointer. A slot whose \<^verbatim>\<open>data\<close> is \<^verbatim>\<open>NULL\<close> is empty, one whose
  \<^verbatim>\<open>data\<close> is \<^verbatim>\<open>HASH_TOMBSTONE\<close> is a tombstone, every other slot is occupied.
  Pointers, \<^verbatim>\<open>u4\<close> and \<^verbatim>\<open>size_t\<close> are 32-bit words (the VM's 32-bit target); pointers are
  only compared, hashes compared and masked. The \<^verbatim>\<open>int\<close> fields and counters are
  mathematical integers; the two products of the load test and the doubling of the
  size, which are the places where a value can exceed the table size, have their signed
  overflow as an explicit outcome, as has a rounded-up initial size that does not fit.
\<close>

type_synonym u4 = "32 word"
type_synonym ptr = "32 word"

definition NULL :: ptr where
  "NULL = 0"

text \<open>
  Modelled from the spec: the macro \<^verbatim>\<open>HASH_TOMBSTONE\<close> is declared in Hash.h, which is
  not among the sources. The spec describes it as a magic sentinel address, a reserved
  bit pattern sharing the slot's data field with real values. Only its being different
  from \<^verbatim>\<open>NULL\<close> is ever used below.
\<close>

definition HASH_TOMBSTONE :: ptr where
  "HASH_TOMBSTONE = 0xcbcacccd"

definition LOAD_NUMER :: int where
  "LOAD_NUMER = 5"

definition LOAD_DENOM :: int where
  "LOAD_DENOM = 8"

text \<open>
  Modelled from the spec: the declarations of the structs \<^verbatim>\<open>HashEntry\<close> and \<^verbatim>\<open>HashTable\<close>
  are in Hash.h, which is not among the sources. The fields are the spec's (a slot's
  stored hash and value; the table's capacity, slots, live count, dead count and release
  function), under the names and with the types with which the code reads and writes
  them. \<open>freeFunc\<close> records whether the function pointer is non-null. \<open>freeCalls\<close> is a
  ghost field: the arguments of the calls made to \<^verbatim>\<open>freeFunc\<close> so far, in order. The
  mutex is left out (no operation modelled here takes it).
\<close>

record HashEntry =
  hashValue :: u4
  data :: ptr

record HashTable =
  tableSize :: int
  numEntries :: int
  numDeadEntries :: int
  freeFunc :: bool
  pEntries :: "HashEntry list"
  freeCalls :: "ptr list"

text \<open>
  What an operation can do instead of returning: fail an \<^verbatim>\<open>assert\<close>, call
  \<^verbatim>\<open>dvmAbort\<close>, read a slot outside the array, or overflow a signed \<^verbatim>\<open>int\<close>.
  An operation that contains a probe loop returns an \<open>option\<close>, where \<open>None\<close> means
  that the loop runs forever.
\<close>

datatype error = AssertFailed | Aborted | OutOfBounds | IntOverflow

definition int32 :: "int \<Rightarrow> bool" where
  "int32 x = (- (2 ^ 31) \<le> x \<and> x < 2 ^ 31)"

section \<open>The operations\<close>

subsection \<open>dvmHashSize\<close>

text \<open>Unsigned arithmetic in \<^verbatim>\<open>size_t\<close>: the product wraps around, the division truncates.\<close>

definition dvmHashSize :: "32 word \<Rightarrow> 32 word" where
  "dvmHashSize sz = (sz * word_of_int LOAD_DENOM) div word_of_int LOAD_NUMER + 1"

subsection \<open>Allocation and creation\<close>

text \<open>
  \<^verbatim>\<open>calloc(n, sizeof(HashEntry))\<close>: \<open>mem\<close> says whether the allocation succeeds; the
  new array is zeroed, so every slot is empty.
\<close>

definition calloc :: "bool \<Rightarrow> int \<Rightarrow> HashEntry list option" where
  "calloc mem n = (if mem then Some (replicate (nat n) \<lparr>hashValue = 0, data = NULL\<rparr>) else None)"

text \<open>
  Modelled from the spec: \<^verbatim>\<open>dexRoundUpPower2\<close> is declared in a header that is not among
  the sources. The spec says that the capacity hint is rounded up to the next power of
  two.
\<close>

function roundUpLoop :: "nat \<Rightarrow> nat \<Rightarrow> nat" where
  "roundUpLoop p n = (if n \<le> p \<or> p = 0 then p else roundUpLoop (2 * p) n)"
  by pat_completeness auto
termination
  by (relation "measure (\<lambda>(p, n). n - p)") auto

declare roundUpLoop.simps [simp del]

definition dexRoundUpPower2 :: "nat \<Rightarrow> nat" where
  "dexRoundUpPower2 n = roundUpLoop 1 n"

text \<open>
  \<^verbatim>\<open>dvmHashTableCreate\<close>: \<open>Inr None\<close> is the \<^verbatim>\<open>NULL\<close> handle returned when an
  allocation fails (\<open>mem\<close> stands for both allocations). The rounded-up size is stored in
  the \<^verbatim>\<open>int\<close> field \<open>tableSize\<close>; a size that does not fit is an overflow.
\<close>

definition dvmHashTableCreate :: "bool \<Rightarrow> nat \<Rightarrow> bool \<Rightarrow> error + HashTable option" where
  "dvmHashTableCreate mem initialSize ff =
     (if \<not> initialSize > 0 then Inl AssertFailed
      else if \<not> int32 (int (dexRoundUpPower2 initialSize)) then Inl IntOverflow
      else case calloc mem (int (dexRoundUpPower2 initialSize)) of
             None \<Rightarrow> Inr None
           | Some es \<Rightarrow> Inr (Some \<lparr>tableSize = int (dexRoundUpPower2 initialSize),
                                    numEntries = 0, numDeadEntries = 0, freeFunc = ff,
                                    pEntries = es, freeCalls = []\<rparr>))"

subsection \<open>dvmHashTableClear\<close>

text \<open>
  The loop counts \<open>i\<close> down from \<open>tableSize\<close> while \<open>pEnt\<close> walks up from slot 0.
\<close>

fun clearLoop :: "bool \<Rightarrow> nat \<Rightarrow> nat \<Rightarrow> HashEntry list \<Rightarrow> ptr list \<Rightarrow> HashEntry list \<times> ptr list" where
  "clearLoop ff 0 pEnt es calls = (es, calls)"
| "clearLoop ff (Suc i) pEnt es calls =
     (if data (es ! pEnt) = HASH_TOMBSTONE
      then clearLoop ff i (pEnt + 1) (es[pEnt := (es ! pEnt)\<lparr>data := NULL\<rparr>]) calls
      else if data (es ! pEnt) \<noteq> NULL
      then clearLoop ff i (pEnt + 1) (es[pEnt := (es ! pEnt)\<lparr>data := NULL\<rparr>])
             (if ff then calls @ [data (es ! pEnt)] else calls)
      else clearLoop ff i (pEnt + 1) es calls)"

definition dvmHashTableClear :: "HashTable \<Rightarrow> HashTable" where
  "dvmHashTableClear t =
     (case clearLoop (freeFunc t) (nat (tableSize t)) 0 (pEntries t) (freeCalls t) of
        (es, calls) \<Rightarrow> t\<lparr>pEntries := es, freeCalls := calls, numEntries := 0, numDeadEntries := 0\<rparr>)"

subsection \<open>countTombStones\<close>

fun countTombStonesLoop :: "HashEntry list \<Rightarrow> nat \<Rightarrow> int \<Rightarrow> int" where
  "countTombStonesLoop es 0 count = count"
| "countTombStonesLoop es (Suc i) count =
     countTombStonesLoop es i (if data (es ! i) = HASH_TOMBSTONE then count + 1 else count)"

definition countTombStones :: "HashTable \<Rightarrow> int" where
  "countTombStones t = countTombStonesLoop (pEntries t) (nat (tableSize t)) 0"

subsection \<open>resizeHash\<close>

text \<open>
  The inner probe \<^verbatim>\<open>while (pNewEntries[newIdx].data != NULL) newIdx = (newIdx + 1) & (newSize-1)\<close>
  has no exit but an empty slot.
\<close>

partial_function (option) resizeProbe :: "HashEntry list \<Rightarrow> int \<Rightarrow> int \<Rightarrow> int option" where
  "resizeProbe pNewEntries newSize newIdx =
     (if data (pNewEntries ! nat newIdx) \<noteq> NULL
      then resizeProbe pNewEntries newSize ((newIdx + 1) AND (newSize - 1))
      else Some newIdx)"

text \<open>
  The outer loop, \<open>i\<close> counting down from \<open>tableSize\<close>. The stored hash is read into an
  \<^verbatim>\<open>int\<close> and written back to the \<^verbatim>\<open>u4\<close> field.
\<close>

fun resizeLoop :: "HashEntry list \<Rightarrow> int \<Rightarrow> nat \<Rightarrow> HashEntry list \<Rightarrow> HashEntry list option" where
  "resizeLoop old newSize 0 pNewEntries = Some pNewEntries"
| "resizeLoop old newSize (Suc i) pNewEntries =
     (if data (old ! i) \<noteq> NULL \<and> data (old ! i) \<noteq> HASH_TOMBSTONE
      then (case resizeProbe pNewEntries newSize (sint (hashValue (old ! i)) AND (newSize - 1)) of
              None \<Rightarrow> None
            | Some newIdx \<Rightarrow>
                resizeLoop old newSize i
                  (pNewEntries[nat newIdx :=
                     \<lparr>hashValue = word_of_int (sint (hashValue (old ! i))), data = data (old ! i)\<rparr>]))
      else resizeLoop old newSize i pNewEntries)"

text \<open>The boolean is the function's return value; \<open>False\<close> leaves the table as it was.\<close>

definition resizeHash :: "bool \<Rightarrow> HashTable \<Rightarrow> int \<Rightarrow> (error + bool \<times> HashTable) option" where
  "resizeHash mem t newSize =
     (if countTombStones t \<noteq> numDeadEntries t then Some (Inl AssertFailed)
      else case calloc mem newSize of
             None \<Rightarrow> Some (Inr (False, t))
           | Some pNewEntries \<Rightarrow>
               (case resizeLoop (pEntries t) newSize (nat (tableSize t)) pNewEntries of
                  None \<Rightarrow> None
                | Some new \<Rightarrow>
                    (if countTombStones (t\<lparr>pEntries := new, tableSize := newSize, numDeadEntries := 0\<rparr>) = 0
                     then Some (Inr (True, t\<lparr>pEntries := new, tableSize := newSize, numDeadEntries := 0\<rparr>))
                     else Some (Inl AssertFailed))))"

subsection \<open>The probe loop of dvmHashTableLookup and countProbes\<close>

definition isMatch :: "HashEntry \<Rightarrow> u4 \<Rightarrow> ptr \<Rightarrow> (ptr \<Rightarrow> ptr \<Rightarrow> int) \<Rightarrow> bool" where
  "isMatch e itemHash item cmpFunc =
     (data e \<noteq> HASH_TOMBSTONE \<and> hashValue e = itemHash \<and> cmpFunc (data e) item = 0)"

text \<open>
  \<open>pEntry\<close> and \<open>pEnd\<close> are slot indices, \<open>pEnd\<close> being \<open>tableSize\<close>, so that the test
  \<^verbatim>\<open>tableSize == 1\<close> is \<open>pEnd = 1\<close>. \<open>count\<close> is the counter of \<^verbatim>\<open>countProbes\<close>, whose loop
  is the one of \<^verbatim>\<open>dvmHashTableLookup\<close> with the counter added: it counts the advances to
  a next slot. The exit through the single-entry edge case leaves \<open>pEntry\<close> at \<open>pEnd\<close>.
\<close>

partial_function (option) probeLoop ::
  "HashEntry list \<Rightarrow> nat \<Rightarrow> u4 \<Rightarrow> ptr \<Rightarrow> (ptr \<Rightarrow> ptr \<Rightarrow> int) \<Rightarrow> nat \<Rightarrow> nat \<Rightarrow> (nat \<times> nat) option" where
  "probeLoop es pEnd itemHash item cmpFunc pEntry count =
     (if data (es ! pEntry) \<noteq> NULL
      then (if isMatch (es ! pEntry) itemHash item cmpFunc then Some (pEntry, count)
            else if pEntry + 1 = pEnd
                 then (if pEnd = 1 then Some (pEntry + 1, count)
                       else probeLoop es pEnd itemHash item cmpFunc 0 (count + 1))
                 else probeLoop es pEnd itemHash item cmpFunc (pEntry + 1) (count + 1))
      else Some (pEntry, count))"

text \<open>The first slot probed: \<^verbatim>\<open>itemHash & (pHashTable->tableSize-1)\<close>, an unsigned \<^verbatim>\<open>u4\<close>.\<close>

definition firstSlot :: "HashTable \<Rightarrow> u4 \<Rightarrow> nat" where
  "firstSlot t itemHash = unat (itemHash AND word_of_int (tableSize t - 1))"

definition lookupProbe :: "HashTable \<Rightarrow> u4 \<Rightarrow> ptr \<Rightarrow> (ptr \<Rightarrow> ptr \<Rightarrow> int) \<Rightarrow> (nat \<times> nat) option" where
  "lookupProbe t itemHash item cmpFunc =
     probeLoop (pEntries t) (nat (tableSize t)) itemHash item cmpFunc (firstSlot t itemHash) 0"

subsection \<open>dvmHashTableLookup\<close>

text \<open>
  The part after a new entry has been written: the load test, the resize, the final
  assertion. \<open>t\<close> is the table with the entry added and \<open>numEntries\<close> incremented.
\<close>

definition afterAdd :: "bool \<Rightarrow> HashTable \<Rightarrow> ptr \<Rightarrow> (error + ptr \<times> HashTable) option" where
  "afterAdd mem t item =
     (if \<not> int32 ((numEntries t + numDeadEntries t) * LOAD_DENOM) \<or> \<not> int32 (tableSize t * LOAD_NUMER)
      then Some (Inl IntOverflow)
      else if (numEntries t + numDeadEntries t) * LOAD_DENOM > tableSize t * LOAD_NUMER
      then (if \<not> int32 (tableSize t * 2) then Some (Inl IntOverflow)
            else case resizeHash mem t (tableSize t * 2) of
                   None \<Rightarrow> None
                 | Some (Inl e) \<Rightarrow> Some (Inl e)
                 | Some (Inr (ok, t')) \<Rightarrow>
                     (if \<not> ok then Some (Inl Aborted)
                      else if numEntries t' < tableSize t' then Some (Inr (item, t'))
                      else Some (Inl AssertFailed)))
      else if numEntries t < tableSize t then Some (Inr (item, t))
      else Some (Inl AssertFailed))"

text \<open>
  The result pointer is \<open>NULL\<close> when the item is absent and was not added. \<open>mem\<close> says
  whether the allocation of a resize, if one happens, succeeds.
\<close>

definition dvmHashTableLookup ::
  "bool \<Rightarrow> HashTable \<Rightarrow> u4 \<Rightarrow> ptr \<Rightarrow> (ptr \<Rightarrow> ptr \<Rightarrow> int) \<Rightarrow> bool \<Rightarrow> (error + ptr \<times> HashTable) option" where
  "dvmHashTableLookup mem t itemHash item cmpFunc doAdd =
     (if \<not> tableSize t > 0 \<or> item = HASH_TOMBSTONE \<or> item = NULL then Some (Inl AssertFailed)
      else case lookupProbe t itemHash item cmpFunc of
             None \<Rightarrow> None
           | Some (pEntry, count) \<Rightarrow>
               (if \<not> pEntry < length (pEntries t) then Some (Inl OutOfBounds)
                else if data (pEntries t ! pEntry) = NULL
                then (if doAdd
                      then afterAdd mem
                             (t\<lparr>pEntries := (pEntries t)[pEntry := \<lparr>hashValue = itemHash, data = item\<rparr>],
                                numEntries := numEntries t + 1\<rparr>) item
                      else Some (Inr (NULL, t)))
                else Some (Inr (data (pEntries t ! pEntry), t))))"

subsection \<open>dvmHashTableRemove\<close>

partial_function (option) removeLoop ::
  "HashTable \<Rightarrow> nat \<Rightarrow> ptr \<Rightarrow> nat \<Rightarrow> (bool \<times> HashTable) option" where
  "removeLoop t pEnd item pEntry =
     (if data (pEntries t ! pEntry) \<noteq> NULL
      then (if data (pEntries t ! pEntry) = item
            then Some (True, t\<lparr>pEntries := (pEntries t)[pEntry := (pEntries t ! pEntry)\<lparr>data := HASH_TOMBSTONE\<rparr>],
                              numEntries := numEntries t - 1,
                              numDeadEntries := numDeadEntries t + 1\<rparr>)
            else if pEntry + 1 = pEnd
                 then (if tableSize t = 1 then Some (False, t)
                       else removeLoop t pEnd item 0)
                 else removeLoop t pEnd item (pEntry + 1))
      else Some (False, t))"

definition dvmHashTableRemove :: "HashTable \<Rightarrow> u4 \<Rightarrow> ptr \<Rightarrow> (error + bool \<times> HashTable) option" where
  "dvmHashTableRemove t itemHash item =
     (if \<not> tableSize t > 0 then Some (Inl AssertFailed)
      else case removeLoop t (nat (tableSize t)) item (firstSlot t itemHash) of
             None \<Rightarrow> None
           | Some r \<Rightarrow> Some (Inr r))"

subsection \<open>dvmHashForeachRemove\<close>

fun foreachRemoveLoop :: "(ptr \<Rightarrow> int) \<Rightarrow> nat \<Rightarrow> HashTable \<Rightarrow> int \<times> HashTable" where
  "foreachRemoveLoop func 0 t = (0, t)"
| "foreachRemoveLoop func (Suc i) t =
     (if data (pEntries t ! i) \<noteq> NULL \<and> data (pEntries t ! i) \<noteq> HASH_TOMBSTONE
      then (if func (data (pEntries t ! i)) = 1
            then foreachRemoveLoop func i
                   (t\<lparr>pEntries := (pEntries t)[i := (pEntries t ! i)\<lparr>data := HASH_TOMBSTONE\<rparr>],
                      numEntries := numEntries t - 1,
                      numDeadEntries := numDeadEntries t + 1\<rparr>)
            else if func (data (pEntries t ! i)) \<noteq> 0 then (func (data (pEntries t ! i)), t)
            else foreachRemoveLoop func i t)
      else foreachRemoveLoop func i t)"

definition dvmHashForeachRemove :: "HashTable \<Rightarrow> (ptr \<Rightarrow> int) \<Rightarrow> int \<times> HashTable" where
  "dvmHashForeachRemove t func = foreachRemoveLoop func (nat (tableSize t)) t"

section \<open>Invariants of the table\<close>

text \<open>
  The notions used to state and prove the properties: the three slot states, the counts
  of occupied and of tombstone slots, the slots on a probe path, and the invariant that
  the public operations maintain. \<open>pathFull es i k\<close> says that the \<open>k\<close> slots probed
  first from slot \<open>i\<close> are all non-empty; \<open>chain_ok\<close> says that no empty slot lies between
  the home slot of an occupied entry and the entry, so that a probe for it cannot stop
  short of it.
\<close>

definition nonstop :: "HashEntry \<Rightarrow> u4 \<Rightarrow> ptr \<Rightarrow> (ptr \<Rightarrow> ptr \<Rightarrow> int) \<Rightarrow> bool" where
  "nonstop e h x cmp = (data e \<noteq> NULL \<and> \<not> isMatch e h x cmp)"

definition isLive :: "HashEntry \<Rightarrow> bool" where
  "isLive e = (data e \<noteq> NULL \<and> data e \<noteq> HASH_TOMBSTONE)"

definition isDead :: "HashEntry \<Rightarrow> bool" where
  "isDead e = (data e = HASH_TOMBSTONE)"

definition liveCount :: "HashEntry list \<Rightarrow> nat" where
  "liveCount es = length (filter isLive es)"

definition deadCount :: "HashEntry list \<Rightarrow> nat" where
  "deadCount es = length (filter isDead es)"

definition probeDist :: "nat \<Rightarrow> nat \<Rightarrow> nat \<Rightarrow> nat" where
  "probeDist n a b = (b + n - a) mod n"

definition pathFull :: "HashEntry list \<Rightarrow> nat \<Rightarrow> nat \<Rightarrow> bool" where
  "pathFull es i k = (\<forall>m<k. data (es ! ((i + m) mod length es)) \<noteq> NULL)"

definition homeSlot :: "HashEntry list \<Rightarrow> u4 \<Rightarrow> nat" where
  "homeSlot es h = unat h mod length es"

definition chain_ok :: "HashEntry list \<Rightarrow> bool" where
  "chain_ok es = (\<forall>j<length es. isLive (es ! j) \<longrightarrow>
       pathFull es (homeSlot es (hashValue (es ! j)))
         (probeDist (length es) (homeSlot es (hashValue (es ! j))) j))"

definition contents :: "HashEntry list \<Rightarrow> (u4 \<times> ptr) set" where
  "contents es = {(hashValue e, data e) | e. e \<in> set es \<and> isLive e}"

definition table_ok :: "HashTable \<Rightarrow> bool" where
  "table_ok t = (tableSize t = int (length (pEntries t)) \<and>
     (\<exists>K\<le>30. length (pEntries t) = 2 ^ K) \<and>
     numEntries t = int (liveCount (pEntries t)) \<and>
     numDeadEntries t = int (deadCount (pEntries t)) \<and>
     chain_ok (pEntries t))"

definition hash_inv :: "HashTable \<Rightarrow> bool" where
  "hash_inv t = (table_ok t \<and>
     (numEntries t + numDeadEntries t) * LOAD_DENOM \<le> tableSize t * LOAD_NUMER)"

definition killSlot :: "HashTable \<Rightarrow> nat \<Rightarrow> HashTable" where
  "killSlot t s = t\<lparr>pEntries := (pEntries t)[s := (pEntries t ! s)\<lparr>data := HASH_TOMBSTONE\<rparr>],
                    numEntries := numEntries t - 1,
                    numDeadEntries := numDeadEntries t + 1\<rparr>"

text \<open>
  \<^verbatim>\<open>dvmHashTableRemove\<close> compares the data of a slot with the item it is given. Given the
  tombstone sentinel it finds a tombstone slot, which stays a tombstone, and moves a unit
  from \<open>numEntries\<close> to \<open>numDeadEntries\<close>. \<open>slots_inv\<close> is the invariant up to such moves:
  it constrains the slots, the size and the sum of the two counts.
\<close>

definition shiftCounts :: "int \<Rightarrow> HashTable \<Rightarrow> HashTable" where
  "shiftCounts k t = t\<lparr>numEntries := numEntries t + k, numDeadEntries := numDeadEntries t - k\<rparr>"

definition slots_inv :: "HashTable \<Rightarrow> bool" where
  "slots_inv t = (\<exists>k. hash_inv (shiftCounts k t))"

text \<open>
  The keys of a set of (hash, value) pairs are distinct under a compare function when it
  accepts every value as itself and accepts no other value of the set with the same hash.
\<close>

definition keys_distinct :: "(ptr \<Rightarrow> ptr \<Rightarrow> int) \<Rightarrow> (u4 \<times> ptr) set \<Rightarrow> bool" where
  "keys_distinct cmp C =
     (\<forall>(h, d)\<in>C. cmp d d = 0 \<and> (\<forall>(h', d')\<in>C. h' = h \<longrightarrow> cmp d' d = 0 \<longrightarrow> d' = d))"

section \<open>Runs of the public operations\<close>

text \<open>
  The tables that the public operations can produce. A value passed to
  \<^verbatim>\<open>dvmHashTableRemove\<close> is a reference to caller data, as \<^verbatim>\<open>dvmHashTableLookup\<close> asserts
  of the items it stores, and not the tombstone sentinel. The visitor of
  \<^verbatim>\<open>dvmHashForeachRemove\<close> and the compare function do not touch the table.
\<close>

inductive reachable :: "HashTable \<Rightarrow> bool" where
  created: "dvmHashTableCreate mem initialSize ff = Inr (Some t) \<Longrightarrow> reachable t"
| looked_up: "reachable t \<Longrightarrow>
     dvmHashTableLookup mem t itemHash item cmpFunc doAdd = Some (Inr (r, t')) \<Longrightarrow> reachable t'"
| removed: "reachable t \<Longrightarrow> item \<noteq> HASH_TOMBSTONE \<Longrightarrow>
     dvmHashTableRemove t itemHash item = Some (Inr (b, t')) \<Longrightarrow> reachable t'"
| cleared: "reachable t \<Longrightarrow> reachable (dvmHashTableClear t)"
| swept: "reachable t \<Longrightarrow> dvmHashForeachRemove t func = (v, t') \<Longrightarrow> reachable t'"

text \<open>
  The tables that the public operations can produce when \<^verbatim>\<open>dvmHashTableRemove\<close> is given
  any pointer, the tombstone sentinel included: the function has no check on its item.
\<close>

inductive obtainable :: "HashTable \<Rightarrow> bool" where
  created: "dvmHashTableCreate mem initialSize ff = Inr (Some t) \<Longrightarrow> obtainable t"
| looked_up: "obtainable t \<Longrightarrow>
     dvmHashTableLookup mem t itemHash item cmpFunc doAdd = Some (Inr (r, t')) \<Longrightarrow> obtainable t'"
| removed: "obtainable t \<Longrightarrow>
     dvmHashTableRemove t itemHash item = Some (Inr (b, t')) \<Longrightarrow> obtainable t'"
| cleared: "obtainable t \<Longrightarrow> obtainable (dvmHashTableClear t)"
| swept: "obtainable t \<Longrightarrow> dvmHashForeachRemove t func = (v, t') \<Longrightarrow> obtainable t'"

text \<open>
  A sequence of insertions: each element gives the hash and the item of one call of
  \<^verbatim>\<open>dvmHashTableLookup\<close> with \<open>doAdd\<close> set, and whether the allocation of a resize would
  succeed during that call. The sequence stops at the first call that does not return.
\<close>

fun insertAll :: "(ptr \<Rightarrow> ptr \<Rightarrow> int) \<Rightarrow> HashTable \<Rightarrow> (bool \<times> u4 \<times> ptr) list \<Rightarrow> (error + HashTable) option" where
  "insertAll cmpFunc t [] = Some (Inr t)"
| "insertAll cmpFunc t ((mem, itemHash, item) # ops) =
     (case dvmHashTableLookup mem t itemHash item cmpFunc True of
        None \<Rightarrow> None
      | Some (Inl e) \<Rightarrow> Some (Inl e)
      | Some (Inr (r, t')) \<Rightarrow> insertAll cmpFunc t' ops)"

section \<open>Concrete tables and functions for the examples\<close>

text \<open>A compare function in the style of the VM's own: 0 when the two pointers are equal.\<close>

definition ptrEq :: "ptr \<Rightarrow> ptr \<Rightarrow> int" where
  "ptrEq a b = (if a = b then 0 else 1)"

text \<open>Two occupied slots with the same hash, the second one displaced by the collision.\<close>

definition collideTable :: HashTable where
  "collideTable = \<lparr>tableSize = 4, numEntries = 2, numDeadEntries = 0, freeFunc = False,
     pEntries = [\<lparr>hashValue = 0, data = NULL\<rparr>, \<lparr>hashValue = 1, data = 5\<rparr>,
                 \<lparr>hashValue = 1, data = 7\<rparr>, \<lparr>hashValue = 0, data = NULL\<rparr>],
     freeCalls = []\<rparr>"

text \<open>A single-entry table whose only slot is occupied.\<close>

definition fullSingle :: HashTable where
  "fullSingle = \<lparr>tableSize = 1, numEntries = 1, numDeadEntries = 0, freeFunc = False,
     pEntries = [\<lparr>hashValue = 0, data = 5\<rparr>], freeCalls = []\<rparr>"

text \<open>The empty table of four slots, and the same table after a first insertion.\<close>

definition emptyTable :: HashTable where
  "emptyTable = \<lparr>tableSize = 4, numEntries = 0, numDeadEntries = 0, freeFunc = False,
     pEntries = [\<lparr>hashValue = 0, data = NULL\<rparr>, \<lparr>hashValue = 0, data = NULL\<rparr>,
                 \<lparr>hashValue = 0, data = NULL\<rparr>, \<lparr>hashValue = 0, data = NULL\<rparr>],
     freeCalls = []\<rparr>"

definition oneTable :: HashTable where
  "oneTable = \<lparr>tableSize = 4, numEntries = 1, numDeadEntries = 0, freeFunc = False,
     pEntries = [\<lparr>hashValue = 0, data = NULL\<rparr>, \<lparr>hashValue = 1, data = 5\<rparr>,
                 \<lparr>hashValue = 0, data = NULL\<rparr>, \<lparr>hashValue = 0, data = NULL\<rparr>],
     freeCalls = []\<rparr>"

text \<open>The table of one slot, and what the first insertion makes of it.\<close>

definition unitTable :: HashTable where
  "unitTable = \<lparr>tableSize = 1, numEntries = 0, numDeadEntries = 0, freeFunc = False,
     pEntries = [\<lparr>hashValue = 0, data = NULL\<rparr>], freeCalls = []\<rparr>"

definition grownTable :: HashTable where
  "grownTable = \<lparr>tableSize = 2, numEntries = 1, numDeadEntries = 0, freeFunc = False,
     pEntries = [\<lparr>hashValue = 0, data = NULL\<rparr>, \<lparr>hashValue = 3, data = 5\<rparr>], freeCalls = []\<rparr>"

text \<open>
  The table \<open>collideTable\<close> after the removal of its first entry, and the same table
  resized to eight slots.
\<close>

definition tombTable :: HashTable where
  "tombTable = \<lparr>tableSize = 4, numEntries = 1, numDeadEntries = 1, freeFunc = False,
     pEntries = [\<lparr>hashValue = 0, data = NULL\<rparr>, \<lparr>hashValue = 1, data = HASH_TOMBSTONE\<rparr>,
                 \<lparr>hashValue = 1, data = 7\<rparr>, \<lparr>hashValue = 0, data = NULL\<rparr>],
     freeCalls = []\<rparr>"

text \<open>
  The table \<open>tombTable\<close> after a removal that was given the tombstone sentinel: the slots
  of \<open>tombTable\<close>, one unit moved from \<open>numEntries\<close> to \<open>numDeadEntries\<close>.
\<close>

definition driftTable :: HashTable where
  "driftTable = \<lparr>tableSize = 4, numEntries = 0, numDeadEntries = 2, freeFunc = False,
     pEntries = [\<lparr>hashValue = 0, data = NULL\<rparr>, \<lparr>hashValue = 1, data = HASH_TOMBSTONE\<rparr>,
                 \<lparr>hashValue = 1, data = 7\<rparr>, \<lparr>hashValue = 0, data = NULL\<rparr>],
     freeCalls = []\<rparr>"

definition resizedTable :: HashTable where
  "resizedTable = \<lparr>tableSize = 8, numEntries = 1, numDeadEntries = 0, freeFunc = False,
     pEntries = [\<lparr>hashValue = 0, data = NULL\<rparr>, \<lparr>hashValue = 1, data = 7\<rparr>,
                 \<lparr>hashValue = 0, data = NULL\<rparr>, \<lparr>hashValue = 0, data = NULL\<rparr>,
                 \<lparr>hashValue = 0, data = NULL\<rparr>, \<lparr>hashValue = 0, data = NULL\<rparr>,
                 \<lparr>hashValue = 0, data = NULL\<rparr>, \<lparr>hashValue = 0, data = NULL\<rparr>],
     freeCalls = []\<rparr>"

text \<open>
  Three keys X = (1, 5), Y = (1, 7), Z = (2, 9) inserted in this order into the empty table
  of four slots (the third insertion resizes it), a visitor that removes Y and keeps
  the others, and the table after the sweep.
\<close>

definition threeTable :: HashTable where
  "threeTable = \<lparr>tableSize = 8, numEntries = 3, numDeadEntries = 0, freeFunc = False,
     pEntries = [\<lparr>hashValue = 0, data = NULL\<rparr>, \<lparr>hashValue = 1, data = 7\<rparr>,
                 \<lparr>hashValue = 2, data = 9\<rparr>, \<lparr>hashValue = 1, data = 5\<rparr>,
                 \<lparr>hashValue = 0, data = NULL\<rparr>, \<lparr>hashValue = 0, data = NULL\<rparr>,
                 \<lparr>hashValue = 0, data = NULL\<rparr>, \<lparr>hashValue = 0, data = NULL\<rparr>],
     freeCalls = []\<rparr>"

definition removeSeven :: "ptr \<Rightarrow> int" where
  "removeSeven d = (if d = 7 then 1 else 0)"

definition sweptTable :: HashTable where
  "sweptTable = \<lparr>tableSize = 8, numEntries = 2, numDeadEntries = 1, freeFunc = False,
     pEntries = [\<lparr>hashValue = 0, data = NULL\<rparr>, \<lparr>hashValue = 1, data = HASH_TOMBSTONE\<rparr>,
                 \<lparr>hashValue = 2, data = 9\<rparr>, \<lparr>hashValue = 1, data = 5\<rparr>,
                 \<lparr>hashValue = 0, data = NULL\<rparr>, \<lparr>hashValue = 0, data = NULL\<rparr>,
                 \<lparr>hashValue = 0, data = NULL\<rparr>, \<lparr>hashValue = 0, data = NULL\<rparr>],
     freeCalls = []\<rparr>"

text \<open>
  The table that \<^verbatim>\<open>dvmHashTableCreate\<close> returns for the hint \<^verbatim>\<open>dvmHashSize(3)\<close>, and the same
  table after three insertions.
\<close>

definition emptyTable8 :: HashTable where
  "emptyTable8 = \<lparr>tableSize = 8, numEntries = 0, numDeadEntries = 0, freeFunc = False,
     pEntries = [\<lparr>hashValue = 0, data = NULL\<rparr>, \<lparr>hashValue = 0, data = NULL\<rparr>,
                 \<lparr>hashValue = 0, data = NULL\<rparr>, \<lparr>hashValue = 0, data = NULL\<rparr>,
                 \<lparr>hashValue = 0, data = NULL\<rparr>, \<lparr>hashValue = 0, data = NULL\<rparr>,
                 \<lparr>hashValue = 0, data = NULL\<rparr>, \<lparr>hashValue = 0, data = NULL\<rparr>],
     freeCalls = []\<rparr>"

definition filledTable8 :: HashTable where
  "filledTable8 = \<lparr>tableSize = 8, numEntries = 3, numDeadEntries = 0, freeFunc = False,
     pEntries = [\<lparr>hashValue = 0, data = NULL\<rparr>, \<lparr>hashValue = 1, data = 5\<rparr>,
                 \<lparr>hashValue = 1, data = 7\<rparr>, \<lparr>hashValue = 2, data = 9\<rparr>,
                 \<lparr>hashValue = 0, data = NULL\<rparr>, \<lparr>hashValue = 0, data = NULL\<rparr>,
                 \<lparr>hashValue = 0, data = NULL\<rparr>, \<lparr>hashValue = 0, data = NULL\<rparr>],
     freeCalls = []\<rparr>"

text \<open>The loops are evaluated on concrete tables by their defining equations.\<close>

declare probeLoop.simps [code]
declare resizeProbe.simps [code]
declare removeLoop.simps [code]

section \<open>Index arithmetic and the probe path\<close>
lemma and_pow2_int: "(x::int) AND (2 ^ K - 1) = x mod 2 ^ K"
  by (simp flip: mask_eq_exp_minus_1 take_bit_eq_mask add: take_bit_eq_mod)

lemma resize_start: 
  assumes "K \<le> 31" shows "sint (h::32 word) AND (2 ^ K - 1) = int (unat h mod 2 ^ K)"
proof -
  have "sint h AND (2 ^ K - 1) = take_bit K (sint h)"
    by (simp flip: mask_eq_exp_minus_1 take_bit_eq_mask)
  also have "\<dots> = take_bit K (take_bit 32 (sint h))"
    using assms by (simp add: min_def)
  also have "take_bit 32 (sint h) = uint h"
    by (simp add: uint_sint)
  also have "take_bit K (uint h) = int (unat h mod 2 ^ K)"
    by (simp only: uint_nat take_bit_eq_mod zmod_int of_nat_power of_nat_numeral)
  finally show ?thesis .
qed

lemma firstSlot_pow2: 
  assumes "tableSize t = 2 ^ K" shows "firstSlot t h = unat h mod 2 ^ K"
proof -
  have "word_of_int (tableSize t - 1) = (mask K :: 32 word)"
    using assms by (simp add: mask_eq_decr_exp)
  then have "firstSlot t h = unat (take_bit K h)"
    by (simp add: firstSlot_def take_bit_eq_mask)
  also have "\<dots> = take_bit K (unat h)"
    by (rule unsigned_take_bit_eq)
  also have "\<dots> = unat h mod 2 ^ K"
    by (rule take_bit_eq_mod)
  finally show ?thesis .
qed

lemma resize_step: "(int idx + 1) AND (2 ^ K - 1) = int ((idx + 1) mod 2 ^ K)"
  by (simp add: and_pow2_int zmod_int add.commute)

lemma probeLoop_steps:
  "i < n \<Longrightarrow> (n = 1 \<longrightarrow> k = 0) \<Longrightarrow> (\<forall>m<k. nonstop (es ! ((i + m) mod n)) h x cmp) \<Longrightarrow>
   \<not> nonstop (es ! ((i + k) mod n)) h x cmp \<Longrightarrow>
   probeLoop es n h x cmp i c = Some ((i + k) mod n, c + k)"
proof (induction k arbitrary: i c)
  case 0
  then show ?case
    by (subst probeLoop.simps) (auto simp: nonstop_def)
next
  case (Suc k)
  from Suc.prems have n1: "n \<noteq> 1" by simp
  from Suc.prems(3) have ns: "nonstop (es ! i) h x cmp"
    using Suc.prems(1) by (metis add.right_neutral mod_less zero_less_Suc)
  let ?j = "(i + 1) mod n"
  have jn: "?j < n" using Suc.prems(1) by simp
  have shift: "\<And>m. (?j + m) mod n = (i + Suc m) mod n"
    by (simp add: mod_add_left_eq)
  have a: "\<forall>m<k. nonstop (es ! ((?j + m) mod n)) h x cmp"
    using Suc.prems(3) shift by auto
  have b: "\<not> nonstop (es ! ((?j + k) mod n)) h x cmp"
    using Suc.prems(4) shift by auto
  have ih: "probeLoop es n h x cmp ?j (c + 1) = Some ((?j + k) mod n, c + 1 + k)"
    using Suc.IH[OF jn _ a b] n1 by simp
  have j_eq: "?j = (if i + 1 = n then 0 else i + 1)"
    using Suc.prems(1) by auto
  show ?case
    using ns ih n1 j_eq shift[of k]
    by (subst probeLoop.simps) (auto simp: nonstop_def)
qed

lemma probeDist_lt: "0 < n \<Longrightarrow> probeDist n a b < n"
  by (simp add: probeDist_def)

lemma probeDist_reach: "a < n \<Longrightarrow> b < n \<Longrightarrow> (a + probeDist n a b) mod n = b"
proof -
  assume a: "a < n" and b: "b < n"
  have "(a + (b + n - a) mod n) mod n = (a + (b + n - a)) mod n"
    by (simp add: mod_add_right_eq)
  also have "\<dots> = (b + n) mod n" using a by simp
  also have "\<dots> = b" using b by simp
  finally show ?thesis by (simp add: probeDist_def)
qed

lemma probeDist_unique: "a < n \<Longrightarrow> m < n \<Longrightarrow> probeDist n a ((a + m) mod n) = m"
proof -
  assume a: "a < n" and m: "m < n"
  have "((a + m) mod n + n - a) mod n = ((a + m) mod n + (n - a)) mod n"
    using a by simp
  also have "\<dots> = ((a + m) + (n - a)) mod n"
    by (simp add: mod_add_left_eq)
  also have "\<dots> = (m + n) mod n" using a by (simp add: algebra_simps)
  also have "\<dots> = m" using m by simp
  finally show ?thesis by (simp add: probeDist_def)
qed

text \<open>The first slot on the probe path at which the loop stops.\<close>

lemma first_stop:
  assumes "\<not> nonstop (es ! ((i + k) mod n)) h x cmp"
  shows "\<exists>c\<le>k. (\<forall>m<c. nonstop (es ! ((i + m) mod n)) h x cmp) \<and> \<not> nonstop (es ! ((i + c) mod n)) h x cmp"
proof -
  let ?P = "\<lambda>m. \<not> nonstop (es ! ((i + m) mod n)) h x cmp"
  have "?P (LEAST m. ?P m)" using assms by (rule LeastI)
  moreover have "(LEAST m. ?P m) \<le> k" using assms by (rule Least_le)
  moreover have "\<forall>m<(LEAST m. ?P m). \<not> ?P m" using not_less_Least by blast
  ultimately show ?thesis by blast
qed

lemma probeLoop_result:
  assumes n: "i < n" and k: "k < n" and stop: "\<not> nonstop (es ! ((i + k) mod n)) h x cmp"
    and one: "n = 1 \<longrightarrow> \<not> nonstop (es ! 0) h x cmp"
  shows "\<exists>c\<le>k. probeLoop es n h x cmp i 0 = Some ((i + c) mod n, c) \<and>
           (\<forall>m<c. nonstop (es ! ((i + m) mod n)) h x cmp) \<and>
           \<not> nonstop (es ! ((i + c) mod n)) h x cmp"
proof -
  obtain c where c: "c \<le> k" "\<forall>m<c. nonstop (es ! ((i + m) mod n)) h x cmp"
      "\<not> nonstop (es ! ((i + c) mod n)) h x cmp"
    using first_stop[OF stop] by blast
  have "n = 1 \<longrightarrow> c = 0" using c(1) k by auto
  then have "probeLoop es n h x cmp i 0 = Some ((i + c) mod n, 0 + c)"
    using n c by (intro probeLoop_steps) auto
  then show ?thesis using c by auto
qed

lemma tomb_not_null: "HASH_TOMBSTONE \<noteq> NULL"
  by (simp add: HASH_TOMBSTONE_def NULL_def)

lemma filter_update_count:
  "i < length xs \<Longrightarrow>
   int (length (filter P (xs[i := y]))) =
     int (length (filter P xs)) - (if P (xs ! i) then 1 else 0) + (if P y then 1 else 0)"
proof (induction xs arbitrary: i)
  case Nil
  then show ?case by simp
next
  case (Cons a xs)
  show ?case
  proof (cases i)
    case 0
    then show ?thesis by simp
  next
    case (Suc k)
    then have "k < length xs" using Cons.prems by simp
    from Cons.IH[OF this] show ?thesis using Suc by (auto split: if_splits)
  qed
qed

lemma empty_slot_exists:
  assumes "liveCount es + deadCount es < length es"
  shows "\<exists>j<length es. data (es ! j) = NULL"
proof (rule ccontr)
  assume "\<not> ?thesis"
  then have all: "\<forall>e\<in>set es. data e \<noteq> NULL"
    by (auto simp: in_set_conv_nth)
  then have "filter isDead es = filter (\<lambda>e. \<not> isLive e) es"
    by (intro filter_cong) (auto simp: isDead_def isLive_def)
  then have "liveCount es + deadCount es = length es"
    by (simp add: liveCount_def deadCount_def sum_length_filter_compl)
  with assms show False by simp
qed

lemma homeSlot_update [simp]: "homeSlot (es[j := e]) h = homeSlot es h"
  by (simp add: homeSlot_def)

lemma nonnull_update:
  "data e \<noteq> NULL \<Longrightarrow> i < length es \<Longrightarrow> data (es ! i) \<noteq> NULL \<Longrightarrow> data (es[j := e] ! i) \<noteq> NULL"
  by (cases "i = j") auto

lemma pathFull_update:
  "data e \<noteq> NULL \<Longrightarrow> 0 < length es \<Longrightarrow> pathFull es i k \<Longrightarrow> pathFull (es[j := e]) i k"
  unfolding pathFull_def
proof (intro allI impI)
  fix m
  assume nn: "data e \<noteq> NULL" and pos: "0 < length es"
    and full: "\<forall>m<k. data (es ! ((i + m) mod length es)) \<noteq> NULL" and m: "m < k"
  have "(i + m) mod length es < length es" using pos by simp
  moreover have "data (es ! ((i + m) mod length es)) \<noteq> NULL" using full m by simp
  ultimately show "data (es[j := e] ! ((i + m) mod length (es[j := e]))) \<noteq> NULL"
    using nonnull_update[OF nn] by simp
qed

lemma chain_ok_fill:
  assumes ok: "chain_ok es" and j: "j < length es" and live: "isLive e"
    and path: "pathFull es (homeSlot es (hashValue e)) (probeDist (length es) (homeSlot es (hashValue e)) j)"
  shows "chain_ok (es[j := e])"
  unfolding chain_ok_def
proof (intro allI impI)
  fix j'
  assume j': "j' < length (es[j := e])" and l: "isLive (es[j := e] ! j')"
  have nn: "data e \<noteq> NULL" using live by (simp add: isLive_def)
  have pos: "0 < length es" using j by (cases es) auto
  show "pathFull (es[j := e]) (homeSlot (es[j := e]) (hashValue (es[j := e] ! j')))
          (probeDist (length (es[j := e])) (homeSlot (es[j := e]) (hashValue (es[j := e] ! j'))) j')"
  proof (cases "j' = j")
    case True
    then show ?thesis using j path pathFull_update[OF nn pos] by simp
  next
    case False
    then have "isLive (es ! j')" using l by simp
    then have "pathFull es (homeSlot es (hashValue (es ! j')))
          (probeDist (length es) (homeSlot es (hashValue (es ! j'))) j')"
      using ok j' by (simp add: chain_ok_def)
    then show ?thesis using False pathFull_update[OF nn pos] by simp
  qed
qed

lemma chain_ok_kill:
  assumes ok: "chain_ok es" and j: "j < length es"
  shows "chain_ok (es[j := (es ! j)\<lparr>data := HASH_TOMBSTONE\<rparr>])"
  unfolding chain_ok_def
proof (intro allI impI)
  let ?es = "es[j := (es ! j)\<lparr>data := HASH_TOMBSTONE\<rparr>]"
  fix j'
  assume j': "j' < length ?es" and l: "isLive (?es ! j')"
  have pos: "0 < length es" using j by (cases es) auto
  have ne: "j' \<noteq> j" using l j by (auto simp: isLive_def)
  then have "isLive (es ! j')" using l by simp
  then have "pathFull es (homeSlot es (hashValue (es ! j')))
        (probeDist (length es) (homeSlot es (hashValue (es ! j'))) j')"
    using ok j' by (simp add: chain_ok_def)
  then show "pathFull ?es (homeSlot ?es (hashValue (?es ! j')))
          (probeDist (length ?es) (homeSlot ?es (hashValue (?es ! j'))) j')"
    using ne pathFull_update[OF _ pos, of "(es ! j)\<lparr>data := HASH_TOMBSTONE\<rparr>"] tomb_not_null by simp
qed

lemma hash_inv_empty_slot:
  assumes "hash_inv t"
  shows "\<exists>j<length (pEntries t). data (pEntries t ! j) = NULL"
proof -
  define a where "a = int (liveCount (pEntries t))"
  define b where "b = int (deadCount (pEntries t))"
  define n where "n = int (length (pEntries t))"
  obtain K where K: "length (pEntries t) = 2 ^ K"
    using assms by (auto simp: hash_inv_def table_ok_def)
  then have pos: "0 < n" by (simp add: n_def)
  have "a * 8 + b * 8 \<le> n * 5"
    using assms
    by (simp add: hash_inv_def table_ok_def LOAD_DENOM_def LOAD_NUMER_def a_def b_def n_def
        distrib_right)
  then have "a + b < n" using pos by linarith
  then have "liveCount (pEntries t) + deadCount (pEntries t) < length (pEntries t)"
    by (simp add: a_def b_def n_def)
  then show ?thesis by (rule empty_slot_exists)
qed

text \<open>On a table that satisfies the invariant the probe loop of a lookup stops, in bounds.\<close>

lemma lookupProbe_inv:
  assumes inv: "hash_inv t"
  shows "\<exists>c<length (pEntries t).
           lookupProbe t h x cmp = Some ((homeSlot (pEntries t) h + c) mod length (pEntries t), c) \<and>
           (\<forall>m<c. nonstop (pEntries t ! ((homeSlot (pEntries t) h + m) mod length (pEntries t))) h x cmp) \<and>
           \<not> nonstop (pEntries t ! ((homeSlot (pEntries t) h + c) mod length (pEntries t))) h x cmp"
proof -
  let ?es = "pEntries t" and ?n = "length (pEntries t)"
  let ?i = "homeSlot ?es h"
  obtain K where K: "?n = 2 ^ K" using inv by (auto simp: hash_inv_def table_ok_def)
  have ts: "tableSize t = int ?n" using inv by (simp add: hash_inv_def table_ok_def)
  have pos: "0 < ?n" using K by simp
  have i: "?i < ?n" using pos by (simp add: homeSlot_def)
  have fs: "firstSlot t h = ?i"
    using firstSlot_pow2[of t K h] ts K by (simp add: homeSlot_def)
  obtain j where j: "j < ?n" "data (?es ! j) = NULL"
    using hash_inv_empty_slot[OF inv] by blast
  let ?k = "probeDist ?n ?i j"
  have k: "?k < ?n" using pos by (rule probeDist_lt)
  have "(?i + ?k) mod ?n = j" using i j by (simp add: probeDist_reach)
  then have stop: "\<not> nonstop (?es ! ((?i + ?k) mod ?n)) h x cmp"
    using j by (simp add: nonstop_def)
  have one: "?n = 1 \<longrightarrow> \<not> nonstop (?es ! 0) h x cmp"
    using j by (auto simp: nonstop_def)
  obtain c where c: "c \<le> ?k" "probeLoop ?es ?n h x cmp ?i 0 = Some ((?i + c) mod ?n, c)"
      "\<forall>m<c. nonstop (?es ! ((?i + m) mod ?n)) h x cmp"
      "\<not> nonstop (?es ! ((?i + c) mod ?n)) h x cmp"
    using probeLoop_result[OF i k stop one] by blast
  have "lookupProbe t h x cmp = Some ((?i + c) mod ?n, c)"
    using c(2) fs ts by (simp add: lookupProbe_def)
  moreover have "c < ?n" using c(1) k by simp
  ultimately show ?thesis using c(3,4) by blast
qed

text \<open>A lookup for a key that no occupied slot matches.\<close>

lemma lookup_absent_inv:
  assumes inv: "hash_inv t" and x: "x \<noteq> NULL" "x \<noteq> HASH_TOMBSTONE"
    and nomatch: "\<forall>e\<in>set (pEntries t). \<not> (isLive e \<and> hashValue e = h \<and> cmp (data e) x = 0)"
  shows "\<exists>i c. lookupProbe t h x cmp = Some (i, c) \<and> int c < tableSize t \<and>
           i < length (pEntries t) \<and> data (pEntries t ! i) = NULL \<and>
           pathFull (pEntries t) (homeSlot (pEntries t) h) c \<and>
           i = (homeSlot (pEntries t) h + c) mod length (pEntries t) \<and>
           dvmHashTableLookup mem t h x cmp False = Some (Inr (NULL, t))"
proof -
  let ?es = "pEntries t" and ?n = "length (pEntries t)"
  let ?i = "homeSlot ?es h"
  obtain c where c: "c < ?n" "lookupProbe t h x cmp = Some ((?i + c) mod ?n, c)"
      "\<forall>m<c. nonstop (?es ! ((?i + m) mod ?n)) h x cmp"
      "\<not> nonstop (?es ! ((?i + c) mod ?n)) h x cmp"
    using lookupProbe_inv[OF inv] by blast
  have ts: "tableSize t = int ?n" using inv by (simp add: hash_inv_def table_ok_def)
  have pos: "0 < ?n" using c(1) by (cases "pEntries t") auto
  let ?s = "(?i + c) mod ?n"
  have s: "?s < ?n" using pos by simp
  then have "?es ! ?s \<in> set ?es" by simp
  with nomatch have "\<not> isMatch (?es ! ?s) h x cmp \<or> data (?es ! ?s) = NULL"
    by (auto simp: isMatch_def isLive_def)
  with c(4) have null: "data (?es ! ?s) = NULL" by (auto simp: nonstop_def)
  have full: "pathFull ?es ?i c" using c(3) by (simp add: pathFull_def nonstop_def)
  have "dvmHashTableLookup mem t h x cmp False = Some (Inr (NULL, t))"
    using c(2) x ts pos s null by (simp add: dvmHashTableLookup_def)
  then show ?thesis using c(1,2) ts s null full by auto
qed

text \<open>A lookup for a key that the occupied slot \<open>j\<close> matches.\<close>

lemma lookup_found_inv:
  assumes inv: "hash_inv t" and x: "x \<noteq> NULL" "x \<noteq> HASH_TOMBSTONE"
    and j: "j < length (pEntries t)" "isLive (pEntries t ! j)" "hashValue (pEntries t ! j) = h"
      "cmp (data (pEntries t ! j)) x = 0"
  shows "\<exists>i<length (pEntries t). isLive (pEntries t ! i) \<and> hashValue (pEntries t ! i) = h \<and>
           cmp (data (pEntries t ! i)) x = 0 \<and>
           dvmHashTableLookup mem t h x cmp doAdd = Some (Inr (data (pEntries t ! i), t))"
proof -
  let ?es = "pEntries t" and ?n = "length (pEntries t)"
  let ?i = "homeSlot ?es h"
  obtain c where c: "c < ?n" "lookupProbe t h x cmp = Some ((?i + c) mod ?n, c)"
      "\<forall>m<c. nonstop (?es ! ((?i + m) mod ?n)) h x cmp"
      "\<not> nonstop (?es ! ((?i + c) mod ?n)) h x cmp"
    using lookupProbe_inv[OF inv] by blast
  have ts: "tableSize t = int ?n" using inv by (simp add: hash_inv_def table_ok_def)
  have chain: "chain_ok ?es" using inv by (simp add: hash_inv_def table_ok_def)
  have pos: "0 < ?n" using c(1) by (cases "pEntries t") auto
  have i: "?i < ?n" using pos by (simp add: homeSlot_def)
  let ?s = "(?i + c) mod ?n"
  let ?d = "probeDist ?n ?i j"
  have s: "?s < ?n" using pos by simp
  have dj: "(?i + ?d) mod ?n = j" using i j(1) by (rule probeDist_reach)
  have "isMatch (?es ! j) h x cmp" using j by (simp add: isMatch_def isLive_def)
  then have "\<not> nonstop (?es ! ((?i + ?d) mod ?n)) h x cmp" using dj by (simp add: nonstop_def)
  with c(3) have cd: "c \<le> ?d" by (meson not_le)
  have full: "pathFull ?es ?i ?d" using chain j(1,2,3) by (auto simp: chain_ok_def)
  have nn: "data (?es ! ?s) \<noteq> NULL"
  proof (cases "c = ?d")
    case True
    then show ?thesis using dj j(2) by (simp add: isLive_def)
  next
    case False
    then have "c < ?d" using cd by simp
    then show ?thesis using full by (simp add: pathFull_def)
  qed
  with c(4) have m: "isMatch (?es ! ?s) h x cmp" by (simp add: nonstop_def)
  have "dvmHashTableLookup mem t h x cmp doAdd = Some (Inr (data (?es ! ?s), t))"
    using c(2) x ts pos s nn by (simp add: dvmHashTableLookup_def)
  then show ?thesis using s nn m by (auto simp: isMatch_def isLive_def)
qed

subsection \<open>The resize\<close>

lemma resizeProbe_steps:
  "i < 2 ^ K \<Longrightarrow> length new = 2 ^ K \<Longrightarrow> pathFull new i k \<Longrightarrow>
   data (new ! ((i + k) mod 2 ^ K)) = NULL \<Longrightarrow>
   resizeProbe new (2 ^ K) (int i) = Some (int ((i + k) mod 2 ^ K))"
proof (induction k arbitrary: i)
  case 0
  then show ?case by (subst resizeProbe.simps) simp
next
  case (Suc k)
  let ?j = "(i + 1) mod 2 ^ K"
  have jn: "?j < 2 ^ K" by simp
  have shift: "\<And>m. (?j + m) mod 2 ^ K = (i + Suc m) mod 2 ^ K"
    by (simp add: mod_add_left_eq)
  have nn: "data (new ! i) \<noteq> NULL"
    using Suc.prems(1,2,3) by (auto simp: pathFull_def dest: spec[of _ 0])
  have a: "pathFull new ?j k"
    using Suc.prems(2,3) shift by (auto simp: pathFull_def)
  have b: "data (new ! ((?j + k) mod 2 ^ K)) = NULL"
    using Suc.prems(4) shift by simp
  have "resizeProbe new (2 ^ K) (int ?j) = Some (int ((?j + k) mod 2 ^ K))"
    by (rule Suc.IH[OF jn Suc.prems(2) a b])
  then show ?case
    using nn shift[of k] resize_step[of i K]
    by (subst resizeProbe.simps) simp
qed

lemma countTombStonesLoop_eq:
  "i \<le> length es \<Longrightarrow> countTombStonesLoop es i c = c + int (length (filter isDead (take i es)))"
proof (induction i arbitrary: c)
  case 0
  then show ?case by simp
next
  case (Suc i)
  then have "take (Suc i) es = take i es @ [es ! i]"
    by (simp add: take_Suc_conv_app_nth)
  then show ?case using Suc by (simp add: isDead_def)
qed

lemma countTombStones_eq:
  "tableSize t = int (length (pEntries t)) \<Longrightarrow> countTombStones t = int (deadCount (pEntries t))"
  by (simp add: countTombStones_def countTombStonesLoop_eq deadCount_def)

lemma contents_fill:
  assumes "j < length es" "\<not> isLive (es ! j)" "isLive e"
  shows "contents (es[j := e]) = insert (hashValue e, data e) (contents es)"
proof -
  have "set (es[j := e]) \<subseteq> insert e (set es)" by (rule set_update_subset_insert)
  then have a: "contents (es[j := e]) \<subseteq> insert (hashValue e, data e) (contents es)"
    by (auto simp: contents_def)
  have "e \<in> set (es[j := e])" using assms(1) by (simp add: set_update_memI)
  then have b: "(hashValue e, data e) \<in> contents (es[j := e])"
    using assms(3) by (auto simp: contents_def)
  have c: "contents es \<subseteq> contents (es[j := e])"
  proof
    fix p assume "p \<in> contents es"
    then obtain e' where e': "e' \<in> set es" "isLive e'" "p = (hashValue e', data e')"
      by (auto simp: contents_def)
    then obtain i where i: "i < length es" "es ! i = e'" by (auto simp: in_set_conv_nth)
    then have "i \<noteq> j" using assms(2) e'(2) by auto
    then have "es[j := e] ! i = e'" using i by simp
    then have "e' \<in> set (es[j := e])" using i(1) by (metis length_list_update nth_mem)
    then show "p \<in> contents (es[j := e])" using e' by (auto simp: contents_def)
  qed
  from a b c show ?thesis by auto
qed

lemma least_witness:
  assumes "P (k::nat)"
  shows "\<exists>c\<le>k. (\<forall>m<c. \<not> P m) \<and> P c"
proof -
  have "P (LEAST m. P m)" using assms by (rule LeastI)
  moreover have "(LEAST m. P m) \<le> k" using assms by (rule Least_le)
  moreover have "\<forall>m<(LEAST m. P m). \<not> P m" using not_less_Least by blast
  ultimately show ?thesis by blast
qed

lemma first_empty:
  assumes j: "j < length es" "data (es ! j) = NULL" and i: "i < length es"
  shows "\<exists>c<length es. pathFull es i c \<and> data (es ! ((i + c) mod length es)) = NULL"
proof -
  let ?n = "length es"
  let ?P = "\<lambda>m. data (es ! ((i + m) mod ?n)) = NULL"
  have pos: "0 < ?n" using i by (cases es) auto
  have "?P (probeDist ?n i j)" using i j by (simp add: probeDist_reach)
  then obtain c where c: "c \<le> probeDist ?n i j" "\<forall>m<c. \<not> ?P m" "?P c"
    using least_witness[of ?P] by blast
  have "c < ?n" using c(1) probeDist_lt[OF pos, of i j] by simp
  then show ?thesis using c by (auto simp: pathFull_def)
qed

lemma contents_Cons:
  "contents (e # es) = (if isLive e then insert (hashValue e, data e) (contents es) else contents es)"
  by (auto simp: contents_def)

lemma liveCount_Cons:
  "liveCount (e # es) = (if isLive e then Suc (liveCount es) else liveCount es)"
  by (simp add: liveCount_def)

lemma liveCount_le: "liveCount es \<le> length es"
  by (simp add: liveCount_def)

lemma no_tomb_deadCount: "\<forall>e\<in>set es. data e \<noteq> HASH_TOMBSTONE \<Longrightarrow> deadCount es = 0"
  by (simp add: deadCount_def isDead_def)

lemma liveCount_fill:
  "j < length es \<Longrightarrow> \<not> isLive (es ! j) \<Longrightarrow> isLive e \<Longrightarrow> liveCount (es[j := e]) = Suc (liveCount es)"
  using filter_update_count[of j es isLive e] by (simp add: liveCount_def)

lemma resizeLoop_ok:
  assumes K: "K \<le> 31"
  shows "i \<le> length old \<Longrightarrow> length new = 2 ^ K \<Longrightarrow> length old < 2 ^ K \<Longrightarrow>
    \<forall>e\<in>set new. data e \<noteq> HASH_TOMBSTONE \<Longrightarrow> chain_ok new \<Longrightarrow>
    liveCount new = liveCount (drop i old) \<Longrightarrow> contents new = contents (drop i old) \<Longrightarrow>
    \<exists>new'. resizeLoop old (2 ^ K) i new = Some new' \<and> length new' = 2 ^ K \<and>
      (\<forall>e\<in>set new'. data e \<noteq> HASH_TOMBSTONE) \<and> chain_ok new' \<and>
      liveCount new' = liveCount old \<and> contents new' = contents old"
proof (induction i arbitrary: new)
  case 0
  then show ?case by simp
next
  case (Suc i)
  have i: "i < length old" using Suc.prems(1) by simp
  have dr: "drop i old = old ! i # drop (Suc i) old"
    using i by (simp add: Cons_nth_drop_Suc)
  show ?case
  proof (cases "isLive (old ! i)")
    case False
    have "liveCount new = liveCount (drop i old)" "contents new = contents (drop i old)"
      using Suc.prems(6,7) False by (simp_all add: dr liveCount_Cons contents_Cons)
    from Suc.IH[OF _ Suc.prems(2,3,4,5) this] i
    show ?thesis using False by (auto simp: isLive_def)
  next
    case True
    let ?h = "hashValue (old ! i)"
    let ?e = "\<lparr>hashValue = ?h, data = data (old ! i)\<rparr>"
    let ?home = "homeSlot new ?h"
    have n: "length new = 2 ^ K" by (rule Suc.prems(2))
    have home: "?home < length new" by (simp add: homeSlot_def n)
    have start: "sint ?h AND (2 ^ K - 1) = int ?home"
      using resize_start[OF K] by (simp add: homeSlot_def n)
    have "liveCount new \<le> length (drop (Suc i) old)"
      using Suc.prems(6) liveCount_le[of "drop (Suc i) old"] by (simp only:)
    then have "liveCount new + deadCount new < length new"
      using no_tomb_deadCount[OF Suc.prems(4)] Suc.prems(3) n by simp
    then obtain j where j: "j < length new" "data (new ! j) = NULL"
      using empty_slot_exists by blast
    obtain c where c: "c < length new" "pathFull new ?home c"
        "data (new ! ((?home + c) mod length new)) = NULL"
      using first_empty[OF j home] by blast
    let ?idx = "(?home + c) mod 2 ^ K"
    have idx: "?idx < length new" by (simp add: n)
    have probe: "resizeProbe new (2 ^ K) (sint ?h AND (2 ^ K - 1)) = Some (int ?idx)"
      using resizeProbe_steps[of ?home K new c] home c n start by simp
    let ?new = "new[?idx := ?e]"
    have live_e: "isLive ?e" using True by (simp add: isLive_def)
    have notlive: "\<not> isLive (new ! ?idx)" using c(3) n by (simp add: isLive_def)
    have a1: "length ?new = 2 ^ K" using n by simp
    have a2: "\<forall>e\<in>set ?new. data e \<noteq> HASH_TOMBSTONE"
      using Suc.prems(4) True set_update_subset_insert[of new ?idx ?e]
      by (auto simp: isLive_def)
    have dist: "probeDist (length new) ?home ?idx = c"
      using probeDist_unique[OF home c(1)] n by simp
    have a3: "chain_ok ?new"
      using chain_ok_fill[OF Suc.prems(5) idx live_e] c(2) dist by simp
    have a4: "liveCount ?new = liveCount (drop i old)"
      using liveCount_fill[OF idx notlive live_e] Suc.prems(6) True
      by (simp add: dr liveCount_Cons)
    have a5: "contents ?new = contents (drop i old)"
      using contents_fill[OF idx notlive live_e] Suc.prems(7) True
      by (simp add: dr contents_Cons)
    from Suc.IH[OF _ a1 Suc.prems(3) a2 a3 a4 a5] i
    obtain new' where "resizeLoop old (2 ^ K) i ?new = Some new'" "length new' = 2 ^ K"
      "\<forall>e\<in>set new'. data e \<noteq> HASH_TOMBSTONE" "chain_ok new'"
      "liveCount new' = liveCount old" "contents new' = contents old"
      by auto
    then show ?thesis using True probe by (simp add: isLive_def)
  qed
qed

lemma liveCount_Nil [simp]: "liveCount [] = 0"
  by (simp add: liveCount_def)

lemma contents_Nil [simp]: "contents [] = {}"
  by (simp add: contents_def)

lemma chain_ok_replicate: "chain_ok (replicate n \<lparr>hashValue = 0, data = NULL\<rparr>)"
  by (simp add: chain_ok_def isLive_def)

lemma contents_replicate: "contents (replicate n \<lparr>hashValue = 0, data = NULL\<rparr>) = {}"
  by (auto simp: contents_def isLive_def)

lemma liveCount_replicate: "liveCount (replicate n \<lparr>hashValue = 0, data = NULL\<rparr>) = 0"
  by (simp add: liveCount_def isLive_def)

lemma deadCount_replicate: "deadCount (replicate n \<lparr>hashValue = 0, data = NULL\<rparr>) = 0"
  by (simp add: deadCount_def isDead_def tomb_not_null[symmetric])

text \<open>
  Doubling a well-formed table succeeds when the allocation does: the loops stop, both
  assertions hold, the tombstones are gone and the occupied entries are the same.
\<close>

lemma resizeHash_ok:
  assumes ok: "table_ok t" and small: "tableSize t * 2 < 2 ^ 31"
  shows "\<exists>new'. resizeHash True t (tableSize t * 2) =
           Some (Inr (True, t\<lparr>pEntries := new', tableSize := tableSize t * 2, numDeadEntries := 0\<rparr>)) \<and>
         length new' = 2 * length (pEntries t) \<and>
         (\<forall>e\<in>set new'. data e \<noteq> HASH_TOMBSTONE) \<and> chain_ok new' \<and>
         liveCount new' = liveCount (pEntries t) \<and> contents new' = contents (pEntries t) \<and>
         table_ok (t\<lparr>pEntries := new', tableSize := tableSize t * 2, numDeadEntries := 0\<rparr>)"
proof -
  let ?es = "pEntries t"
  obtain K where K: "K \<le> 30" "length ?es = 2 ^ K" using ok by (auto simp: table_ok_def)
  have ts: "tableSize t = int (length ?es)" using ok by (simp add: table_ok_def)
  have ts2: "tableSize t * 2 = 2 ^ Suc K" using ts K by simp
  have "(2::int) ^ Suc K < 2 ^ 31" using small ts2 by simp
  then have "Suc K < 31" by (rule power_less_imp_less_exp[rotated]) simp
  then have K1: "Suc K \<le> 30" by simp
  define new0 where "new0 = replicate (2 ^ Suc K) \<lparr>hashValue = 0, data = NULL\<rparr>"
  have "nat ((2::int) ^ Suc K) = 2 ^ Suc K" by (simp only: nat_power_eq nat_numeral zero_le_numeral)
  then have cal: "calloc True (tableSize t * 2) = Some new0"
    by (simp only: calloc_def ts2 if_True new0_def)
  have tomb0: "countTombStones t = numDeadEntries t"
    using ok countTombStones_eq[of t] by (simp add: table_ok_def)
  have "\<exists>new'. resizeLoop ?es (2 ^ Suc K) (length ?es) new0 = Some new' \<and> length new' = 2 ^ Suc K \<and>
      (\<forall>e\<in>set new'. data e \<noteq> HASH_TOMBSTONE) \<and> chain_ok new' \<and>
      liveCount new' = liveCount ?es \<and> contents new' = contents ?es"
    using K1 K(2) unfolding new0_def
    by (intro resizeLoop_ok)
       (simp_all add: chain_ok_replicate contents_replicate liveCount_replicate
          tomb_not_null[symmetric])
  then obtain new' where new': "resizeLoop ?es (2 ^ Suc K) (length ?es) new0 = Some new'"
      "length new' = 2 ^ Suc K" "\<forall>e\<in>set new'. data e \<noteq> HASH_TOMBSTONE" "chain_ok new'"
      "liveCount new' = liveCount ?es" "contents new' = contents ?es"
    by blast
  let ?t' = "t\<lparr>pEntries := new', tableSize := tableSize t * 2, numDeadEntries := 0\<rparr>"
  have dead: "deadCount new' = 0" using new'(3) by (rule no_tomb_deadCount)
  have "tableSize ?t' = int (length (pEntries ?t'))"
    using new'(2) ts2 by simp
  then have "countTombStones ?t' = int (deadCount (pEntries ?t'))"
    by (rule countTombStones_eq)
  then have tomb1: "countTombStones ?t' = 0" using dead by simp
  have nt: "nat (tableSize t) = length ?es" using ts by simp
  have loop: "resizeLoop ?es (tableSize t * 2) (nat (tableSize t)) new0 = Some new'"
    by (simp only: ts2 nt new'(1))
  have res: "resizeHash True t (tableSize t * 2) = Some (Inr (True, ?t'))"
    by (simp add: resizeHash_def tomb0 cal loop tomb1)
  have ex: "\<exists>K'\<le>30. length new' = 2 ^ K'" using K1 new'(2) by blast
  have tok: "table_ok ?t'"
    using ok new'(2,4,5) dead ts2 ex by (simp add: table_ok_def)
  show ?thesis using res new' K(2) tok by auto
qed

lemma resizeHash_nomem:
  assumes ok: "table_ok t"
  shows "resizeHash False t newSize = Some (Inr (False, t))"
  using ok countTombStones_eq[of t] by (simp add: resizeHash_def calloc_def table_ok_def)

lemma deadCount_fill:
  "j < length es \<Longrightarrow> data (es ! j) = NULL \<Longrightarrow> data e \<noteq> HASH_TOMBSTONE \<Longrightarrow>
   deadCount (es[j := e]) = deadCount es"
  using filter_update_count[of j es isDead e]
  by (simp add: deadCount_def isDead_def tomb_not_null[symmetric])

text \<open>
  The write of a new entry: on a table that satisfies the invariant, a lookup with
  \<open>doAdd\<close> for a key that no occupied slot matches stores the key in an empty slot and
  goes on to the load test.
\<close>

lemma lookup_add_slot:
  assumes inv: "hash_inv t" and x: "x \<noteq> NULL" "x \<noteq> HASH_TOMBSTONE"
    and nomatch: "\<forall>e\<in>set (pEntries t). \<not> (isLive e \<and> hashValue e = h \<and> cmp (data e) x = 0)"
  shows "\<exists>s<length (pEntries t). data (pEntries t ! s) = NULL \<and>
     dvmHashTableLookup mem t h x cmp True =
       afterAdd mem (t\<lparr>pEntries := (pEntries t)[s := \<lparr>hashValue = h, data = x\<rparr>],
                       numEntries := numEntries t + 1\<rparr>) x \<and>
     table_ok (t\<lparr>pEntries := (pEntries t)[s := \<lparr>hashValue = h, data = x\<rparr>],
                 numEntries := numEntries t + 1\<rparr>) \<and>
     contents ((pEntries t)[s := \<lparr>hashValue = h, data = x\<rparr>]) = insert (h, x) (contents (pEntries t)) \<and>
     deadCount ((pEntries t)[s := \<lparr>hashValue = h, data = x\<rparr>]) = deadCount (pEntries t)"
proof -
  let ?es = "pEntries t" and ?n = "length (pEntries t)"
  let ?e = "\<lparr>hashValue = h, data = x\<rparr>"
  obtain s c where sc: "lookupProbe t h x cmp = Some (s, c)" "s < ?n" "data (?es ! s) = NULL"
      "pathFull ?es (homeSlot ?es h) c" "s = (homeSlot ?es h + c) mod ?n" "int c < tableSize t"
    using lookup_absent_inv[where h = h and cmp = cmp, OF inv x nomatch] by blast
  have tok: "table_ok t" using inv by (simp add: hash_inv_def)
  have ts: "tableSize t = int ?n" using tok by (simp add: table_ok_def)
  have pos: "0 < ?n" using sc(2) by (cases ?es) auto
  have home: "homeSlot ?es h < ?n" using pos by (simp add: homeSlot_def)
  have cn: "c < ?n" using sc(6) ts by simp
  have live_e: "isLive ?e" using x by (simp add: isLive_def)
  have notlive: "\<not> isLive (?es ! s)" using sc(3) by (simp add: isLive_def)
  let ?t1 = "t\<lparr>pEntries := ?es[s := ?e], numEntries := numEntries t + 1\<rparr>"
  have look: "dvmHashTableLookup mem t h x cmp True = afterAdd mem ?t1 x"
    using sc(1,2,3) x ts pos by (simp add: dvmHashTableLookup_def)
  have dist: "probeDist ?n (homeSlot ?es h) s = c"
    using probeDist_unique[OF home cn] sc(5) by simp
  have chain: "chain_ok (?es[s := ?e])"
    using chain_ok_fill[OF _ sc(2) live_e] tok sc(4) dist by (simp add: table_ok_def)
  have lc: "liveCount (?es[s := ?e]) = Suc (liveCount ?es)"
    by (rule liveCount_fill[OF sc(2) notlive live_e])
  have dc: "deadCount (?es[s := ?e]) = deadCount ?es"
    using deadCount_fill[OF sc(2,3)] x by simp
  have tok1: "table_ok ?t1"
    using tok chain lc dc by (simp add: table_ok_def)
  have cont: "contents (?es[s := ?e]) = insert (h, x) (contents ?es)"
    using contents_fill[OF sc(2) notlive live_e] by simp
  show ?thesis using sc(2,3) look tok1 cont dc by blast
qed

lemma table_ok_pos: "table_ok t \<Longrightarrow> 0 < tableSize t"
  by (auto simp: table_ok_def)

lemma table_ok_counts: "table_ok t \<Longrightarrow> 0 \<le> numEntries t \<and> 0 \<le> numDeadEntries t"
  by (auto simp: table_ok_def)

text \<open>The load test when the table is still within its load factor.\<close>

lemma afterAdd_fits:
  assumes tok: "table_ok t"
    and load: "(numEntries t + numDeadEntries t) * 8 \<le> tableSize t * 5"
    and small: "tableSize t * 5 < 2 ^ 31"
  shows "afterAdd mem t x = Some (Inr (x, t))"
proof -
  have pos: "0 < tableSize t" using tok by (rule table_ok_pos)
  have nn: "0 \<le> numEntries t" "0 \<le> numDeadEntries t" using table_ok_counts[OF tok] by simp_all
  have "numEntries t * 8 + numDeadEntries t * 8 \<le> tableSize t * 5"
    using load by (simp add: distrib_right)
  then have lt: "numEntries t < tableSize t" using pos nn by linarith
  have i1: "int32 ((numEntries t + numDeadEntries t) * 8)"
    using load small nn by (simp add: int32_def)
  have i2: "int32 (tableSize t * 5)" using small pos by (simp add: int32_def)
  show ?thesis using load lt i1 i2
    by (simp add: afterAdd_def LOAD_DENOM_def LOAD_NUMER_def)
qed

text \<open>Whatever the load test does, it stops; and when it returns, the invariant holds again.\<close>

lemma afterAdd_total:
  assumes tok: "table_ok t"
  shows "\<exists>res. afterAdd mem t x = Some res"
proof (cases "tableSize t * 2 < 2 ^ 31")
  case True
  show ?thesis
  proof (cases mem)
    case True
    from resizeHash_ok[OF tok \<open>tableSize t * 2 < 2 ^ 31\<close>] obtain new' where
      "resizeHash True t (tableSize t * 2) =
         Some (Inr (True, t\<lparr>pEntries := new', tableSize := tableSize t * 2, numDeadEntries := 0\<rparr>))"
      by blast
    then show ?thesis using True by (simp add: afterAdd_def)
  next
    case False
    then show ?thesis using resizeHash_nomem[OF tok] by (simp add: afterAdd_def)
  qed
next
  case False
  then have "\<not> int32 (tableSize t * 2)" by (simp add: int32_def)
  then show ?thesis by (simp add: afterAdd_def)
qed

lemma afterAdd_Inr:
  assumes tok: "table_ok t"
    and room: "numEntries t * 8 \<le> tableSize t * 10"
    and res: "afterAdd mem t x = Some (Inr (r, t'))"
  shows "r = x \<and> hash_inv t' \<and> contents (pEntries t') = contents (pEntries t) \<and>
         numEntries t' = numEntries t \<and> freeCalls t' = freeCalls t \<and> freeFunc t' = freeFunc t \<and>
         ((t' = t \<and> (numEntries t + numDeadEntries t) * 8 \<le> tableSize t * 5) \<or>
          (tableSize t' = 2 * tableSize t \<and> numDeadEntries t' = 0 \<and> deadCount (pEntries t') = 0 \<and>
           tableSize t * 5 < (numEntries t + numDeadEntries t) * 8))"
proof (cases "(numEntries t + numDeadEntries t) * 8 > tableSize t * 5")
  case False
  then have "t' = t \<and> r = x" using res
    by (auto simp: afterAdd_def LOAD_DENOM_def LOAD_NUMER_def split: if_splits)
  then show ?thesis using False tok by (simp add: hash_inv_def LOAD_DENOM_def LOAD_NUMER_def)
next
  case True
  then have small: "tableSize t * 2 < 2 ^ 31"
    using res
    by (auto simp: afterAdd_def LOAD_DENOM_def LOAD_NUMER_def int32_def split: if_splits)
  have m: mem
  proof (rule ccontr)
    assume "\<not> mem"
    then have "resizeHash mem t (tableSize t * 2) = Some (Inr (False, t))"
      using resizeHash_nomem[OF tok] by simp
    then show False using res True
      by (auto simp: afterAdd_def LOAD_DENOM_def LOAD_NUMER_def split: if_splits)
  qed
  from resizeHash_ok[OF tok small] obtain new' where new':
    "resizeHash True t (tableSize t * 2) =
       Some (Inr (True, t\<lparr>pEntries := new', tableSize := tableSize t * 2, numDeadEntries := 0\<rparr>))"
    "\<forall>e\<in>set new'. data e \<noteq> HASH_TOMBSTONE"
    "contents new' = contents (pEntries t)"
    "table_ok (t\<lparr>pEntries := new', tableSize := tableSize t * 2, numDeadEntries := 0\<rparr>)"
    by blast
  let ?t2 = "t\<lparr>pEntries := new', tableSize := tableSize t * 2, numDeadEntries := 0\<rparr>"
  have eq: "t' = ?t2 \<and> r = x" using res True m new'(1)
    by (auto simp: afterAdd_def LOAD_DENOM_def LOAD_NUMER_def split: if_splits)
  have inv2: "hash_inv ?t2"
    using new'(4) room by (simp add: hash_inv_def LOAD_DENOM_def LOAD_NUMER_def)
  have "deadCount new' = 0" using new'(2) by (rule no_tomb_deadCount)
  then show ?thesis using eq inv2 new'(3) True by simp
qed

lemma lookup_add_Inr:
  assumes inv: "hash_inv t" and x: "x \<noteq> NULL" "x \<noteq> HASH_TOMBSTONE"
    and nomatch: "\<forall>e\<in>set (pEntries t). \<not> (isLive e \<and> hashValue e = h \<and> cmp (data e) x = 0)"
    and res: "dvmHashTableLookup mem t h x cmp True = Some (Inr (r, t'))"
  shows "r = x \<and> hash_inv t' \<and> contents (pEntries t') = insert (h, x) (contents (pEntries t)) \<and>
         numEntries t' = numEntries t + 1 \<and> freeCalls t' = freeCalls t \<and> freeFunc t' = freeFunc t \<and>
         ((tableSize t' = tableSize t \<and> numDeadEntries t' = numDeadEntries t) \<or>
          (tableSize t' = 2 * tableSize t \<and> numDeadEntries t' = 0 \<and>
           tableSize t * 5 < (numEntries t + 1 + numDeadEntries t) * 8))"
proof -
  let ?es = "pEntries t"
  obtain s where s: "s < length ?es"
    "dvmHashTableLookup mem t h x cmp True =
       afterAdd mem (t\<lparr>pEntries := ?es[s := \<lparr>hashValue = h, data = x\<rparr>], numEntries := numEntries t + 1\<rparr>) x"
    "table_ok (t\<lparr>pEntries := ?es[s := \<lparr>hashValue = h, data = x\<rparr>], numEntries := numEntries t + 1\<rparr>)"
    "contents (?es[s := \<lparr>hashValue = h, data = x\<rparr>]) = insert (h, x) (contents ?es)"
    using lookup_add_slot[where h = h and cmp = cmp and mem = mem, OF inv x nomatch] by blast
  let ?t1 = "t\<lparr>pEntries := ?es[s := \<lparr>hashValue = h, data = x\<rparr>], numEntries := numEntries t + 1\<rparr>"
  have tok: "table_ok t" using inv by (simp add: hash_inv_def)
  have pos: "0 < tableSize t" using tok by (rule table_ok_pos)
  have nn: "0 \<le> numEntries t" "0 \<le> numDeadEntries t" using table_ok_counts[OF tok] by simp_all
  have "numEntries t * 8 + numDeadEntries t * 8 \<le> tableSize t * 5"
    using inv by (simp add: hash_inv_def LOAD_DENOM_def LOAD_NUMER_def distrib_right)
  then have "numEntries t * 8 + 8 \<le> tableSize t * 10"
    using pos nn by presburger
  then have room: "numEntries ?t1 * 8 \<le> tableSize ?t1 * 10"
    by (simp add: distrib_right)
  have "afterAdd mem ?t1 x = Some (Inr (r, t'))" using res s(2) by simp
  from afterAdd_Inr[OF s(3) room this]
  have F: "r = x" "hash_inv t'" "contents (pEntries t') = contents (pEntries ?t1)"
    "numEntries t' = numEntries ?t1" "freeCalls t' = freeCalls ?t1" "freeFunc t' = freeFunc ?t1"
    "(t' = ?t1 \<and> (numEntries ?t1 + numDeadEntries ?t1) * 8 \<le> tableSize ?t1 * 5) \<or>
     (tableSize t' = 2 * tableSize ?t1 \<and> numDeadEntries t' = 0 \<and> deadCount (pEntries t') = 0 \<and>
      tableSize ?t1 * 5 < (numEntries ?t1 + numDeadEntries ?t1) * 8)"
    by blast+
  from F(7) have G: "(tableSize t' = tableSize t \<and> numDeadEntries t' = numDeadEntries t) \<or>
          (tableSize t' = 2 * tableSize t \<and> numDeadEntries t' = 0 \<and>
           tableSize t * 5 < (numEntries t + 1 + numDeadEntries t) * 8)"
  proof
    assume "t' = ?t1 \<and> (numEntries ?t1 + numDeadEntries ?t1) * 8 \<le> tableSize ?t1 * 5"
    then have "tableSize t' = tableSize t \<and> numDeadEntries t' = numDeadEntries t" by simp
    then show ?thesis ..
  next
    assume "tableSize t' = 2 * tableSize ?t1 \<and> numDeadEntries t' = 0 \<and> deadCount (pEntries t') = 0 \<and>
      tableSize ?t1 * 5 < (numEntries ?t1 + numDeadEntries ?t1) * 8"
    then have "tableSize t' = 2 * tableSize t \<and> numDeadEntries t' = 0 \<and>
           tableSize t * 5 < (numEntries t + 1 + numDeadEntries t) * 8" by simp
    then show ?thesis ..
  qed
  show ?thesis using F(1-6) G s(4) by simp
qed

text \<open>Every lookup on a table that satisfies the invariant stops.\<close>

lemma lookup_total:
  assumes inv: "hash_inv t"
  shows "\<exists>res. dvmHashTableLookup mem t h x cmp doAdd = Some res"
proof (cases "x \<noteq> NULL \<and> x \<noteq> HASH_TOMBSTONE")
  case False
  then show ?thesis by (auto simp: dvmHashTableLookup_def)
next
  case True
  then have x: "x \<noteq> NULL" "x \<noteq> HASH_TOMBSTONE" by simp_all
  show ?thesis
  proof (cases "\<forall>e\<in>set (pEntries t). \<not> (isLive e \<and> hashValue e = h \<and> cmp (data e) x = 0)")
    case True
    show ?thesis
    proof (cases doAdd)
      case False
      then show ?thesis
        using lookup_absent_inv[where h = h and cmp = cmp and mem = mem, OF inv x True] by auto
    next
      case doAdd: True
      obtain s where s: "dvmHashTableLookup mem t h x cmp True =
          afterAdd mem (t\<lparr>pEntries := (pEntries t)[s := \<lparr>hashValue = h, data = x\<rparr>],
                          numEntries := numEntries t + 1\<rparr>) x"
        "table_ok (t\<lparr>pEntries := (pEntries t)[s := \<lparr>hashValue = h, data = x\<rparr>],
                     numEntries := numEntries t + 1\<rparr>)"
        using lookup_add_slot[where h = h and cmp = cmp and mem = mem, OF inv x True] by blast
      show ?thesis using afterAdd_total[OF s(2), of mem x] s(1) doAdd by simp
    qed
  next
    case False
    then obtain e where "e \<in> set (pEntries t)" "isLive e" "hashValue e = h" "cmp (data e) x = 0"
      by blast
    then obtain j where "j < length (pEntries t)" "isLive (pEntries t ! j)"
      "hashValue (pEntries t ! j) = h" "cmp (data (pEntries t ! j)) x = 0"
      by (auto simp: in_set_conv_nth)
    from lookup_found_inv[where cmp = cmp, OF inv x this] show ?thesis by blast
  qed
qed

text \<open>Every lookup that returns leaves a table that satisfies the invariant.\<close>

lemma lookup_preserves:
  assumes inv: "hash_inv t" and res: "dvmHashTableLookup mem t h x cmp doAdd = Some (Inr (r, t'))"
  shows "hash_inv t'"
proof -
  have x: "x \<noteq> NULL" "x \<noteq> HASH_TOMBSTONE"
    using res by (auto simp: dvmHashTableLookup_def split: if_splits)
  show ?thesis
  proof (cases "\<forall>e\<in>set (pEntries t). \<not> (isLive e \<and> hashValue e = h \<and> cmp (data e) x = 0)")
    case True
    show ?thesis
    proof (cases doAdd)
      case False
      then show ?thesis
        using lookup_absent_inv[where h = h and cmp = cmp and mem = mem, OF inv x True] res inv
        by auto
    next
      case doAdd: True
      then have "dvmHashTableLookup mem t h x cmp True = Some (Inr (r, t'))" using res by simp
      from lookup_add_Inr[where cmp = cmp, OF inv x True this] show ?thesis by simp
    qed
  next
    case False
    then obtain e where "e \<in> set (pEntries t)" "isLive e" "hashValue e = h" "cmp (data e) x = 0"
      by blast
    then obtain j where "j < length (pEntries t)" "isLive (pEntries t ! j)"
      "hashValue (pEntries t ! j) = h" "cmp (data (pEntries t ! j)) x = 0"
      by (auto simp: in_set_conv_nth)
    from lookup_found_inv[where cmp = cmp, OF inv x this, of mem doAdd] res inv show ?thesis by auto
  qed
qed

subsection \<open>Turning an occupied slot into a tombstone\<close>

lemma killSlot_inv:
  assumes inv: "hash_inv t" and j: "j < length (pEntries t)" and live: "isLive (pEntries t ! j)"
  shows "hash_inv (killSlot t j)"
proof -
  let ?es = "pEntries t"
  let ?e = "(?es ! j)\<lparr>data := HASH_TOMBSTONE\<rparr>"
  have tok: "table_ok t" using inv by (simp add: hash_inv_def)
  have nl: "\<not> isLive ?e" "isDead ?e" by (simp_all add: isLive_def isDead_def)
  have nd: "\<not> isDead (?es ! j)" using live by (simp add: isLive_def isDead_def)
  have lc: "int (liveCount (?es[j := ?e])) = int (liveCount ?es) - 1"
    using filter_update_count[OF j, of isLive ?e] live nl by (simp add: liveCount_def)
  have dc: "int (deadCount (?es[j := ?e])) = int (deadCount ?es) + 1"
    using filter_update_count[OF j, of isDead ?e] nd nl by (simp add: deadCount_def)
  have ch: "chain_ok (?es[j := ?e])" using chain_ok_kill[OF _ j] tok by (simp add: table_ok_def)
  have "table_ok (killSlot t j)"
    using tok lc dc ch by (simp add: table_ok_def killSlot_def)
  then show ?thesis using inv by (simp add: hash_inv_def killSlot_def)
qed

section \<open>The lookup that finds its key\<close>

text \<open>Where the probe loop can stop: at the end pointer, at an empty slot or at a match.\<close>

lemma probeLoop_exit:
  assumes "probeLoop es pEnd h x cmp i c = Some r"
  shows "fst r = pEnd \<or> data (es ! fst r) = NULL \<or> isMatch (es ! fst r) h x cmp"
  by (rule probeLoop.raw_induct[where P = "\<lambda>es pEnd h x cmp i c r.
        fst r = pEnd \<or> data (es ! fst r) = NULL \<or> isMatch (es ! fst r) h x cmp", OF _ assms])
     (auto split: if_splits)

text \<open>
  C7. When the probe loop of \<^verbatim>\<open>dvmHashTableLookup\<close> leaves \<open>pEntry\<close> on a slot of the
  array whose data is not \<^verbatim>\<open>NULL\<close>, that slot is occupied, its stored hash is the given
  hash and the compare function accepts its value; the lookup returns the stored value
  and the table it returns is the table it was given, in every field, whether or not
  \<open>doAdd\<close> is set and whether or not an allocation would succeed.
\<close>

theorem lookup_match_no_mutation:
  assumes "tableSize t = int (length (pEntries t))" and "item \<noteq> NULL" and "item \<noteq> HASH_TOMBSTONE"
    and "lookupProbe t itemHash item cmpFunc = Some (pEntry, count)"
    and "pEntry < length (pEntries t)" and "data (pEntries t ! pEntry) \<noteq> NULL"
  shows "dvmHashTableLookup mem t itemHash item cmpFunc doAdd =
           Some (Inr (data (pEntries t ! pEntry), t)) \<and>
         isLive (pEntries t ! pEntry) \<and> hashValue (pEntries t ! pEntry) = itemHash \<and>
         cmpFunc (data (pEntries t ! pEntry)) item = 0"
proof -
  have "pEntry = nat (tableSize t) \<or> data (pEntries t ! pEntry) = NULL \<or>
        isMatch (pEntries t ! pEntry) itemHash item cmpFunc"
    using probeLoop_exit[OF assms(4)[unfolded lookupProbe_def]] by simp
  then have m: "isMatch (pEntries t ! pEntry) itemHash item cmpFunc"
    using assms(1,5,6) by auto
  have pos: "0 < tableSize t" using assms(1,5) by (cases "pEntries t") auto
  have "dvmHashTableLookup mem t itemHash item cmpFunc doAdd =
           Some (Inr (data (pEntries t ! pEntry), t))"
    using assms pos by (simp add: dvmHashTableLookup_def)
  then show ?thesis using m assms(6) by (simp add: isMatch_def isLive_def)
qed

theorem lookup_match_no_mutation_witness:
  "lookupProbe collideTable 1 7 ptrEq = Some (2, 1) \<and>
   dvmHashTableLookup False collideTable 1 7 ptrEq True = Some (Inr (7, collideTable)) \<and>
   isLive (pEntries collideTable ! 2)"
proof -
  have p: "lookupProbe collideTable 1 7 ptrEq = Some (2, 1)"
    by (simp add: lookupProbe_def firstSlot_def collideTable_def probeLoop.simps isMatch_def
        ptrEq_def NULL_def HASH_TOMBSTONE_def)
  show ?thesis
    using lookup_match_no_mutation[of collideTable 7 1 ptrEq 2 1 False True] p
    by (simp add: collideTable_def NULL_def HASH_TOMBSTONE_def)
qed

section \<open>dvmHashSize and the capacity hint\<close>

lemma dvmHashSize_unat:
  assumes "unat n * 8 < 2 ^ 32"
  shows "unat (dvmHashSize n) = unat n * 8 div 5 + 1"
proof -
  have d: "dvmHashSize n = (n * 8) div 5 + 1"
    by (simp add: dvmHashSize_def LOAD_DENOM_def LOAD_NUMER_def)
  have a: "unat (n * 8) = unat n * 8"
    using assms by (simp add: unat_word_ariths)
  have b: "unat ((n * 8) div 5) = unat n * 8 div 5"
    using a by (simp add: unat_div)
  have "unat n * 8 div 5 + 1 < 2 ^ 32" using assms by simp
  then show ?thesis
    unfolding d using b by (simp add: unat_word_ariths)
qed

lemma dvmHashSize_bound:
  assumes "unat n * 8 < 2 ^ 32"
  shows "unat n * 8 \<le> unat (dvmHashSize n) * 5"
  using dvmHashSize_unat[OF assms] by simp

text \<open>
  C10, as stated, fails where the product \<^verbatim>\<open>size * LOAD_DENOM\<close> wraps around in
  \<^verbatim>\<open>size_t\<close>: for \<open>2\<^sup>2\<^sup>9\<close> elements the function returns 1.
\<close>

theorem dvmHashSize_wraps:
  "1 \<le> unat (536870912 :: 32 word) \<and> dvmHashSize 536870912 = 1 \<and>
   \<not> unat (536870912 :: 32 word) * 8 \<le> unat (dvmHashSize 536870912) * 5"
  by (simp add: dvmHashSize_def LOAD_DENOM_def LOAD_NUMER_def)

lemma roundUpLoop_ge: "0 < p \<Longrightarrow> n \<le> roundUpLoop p n"
proof (induction p n rule: roundUpLoop.induct)
  case (1 p n)
  then show ?case by (subst roundUpLoop.simps) auto
qed

lemma roundUpLoop_pow2: "\<exists>k. p = 2 ^ k \<Longrightarrow> \<exists>k. roundUpLoop p n = 2 ^ k"
proof (induction p n rule: roundUpLoop.induct)
  case (1 p n)
  show ?case
  proof (cases "n \<le> p \<or> p = 0")
    case True
    then show ?thesis using "1.prems" by (subst roundUpLoop.simps) simp
  next
    case False
    obtain k where "p = 2 ^ k" using "1.prems" by blast
    then have "2 * p = 2 ^ Suc k" by simp
    then have "\<exists>k. 2 * p = 2 ^ k" by blast
    from "1.IH"[OF False this] show ?thesis using False by (subst roundUpLoop.simps) simp
  qed
qed

lemma dexRoundUpPower2_ge: "n \<le> dexRoundUpPower2 n"
  by (simp add: dexRoundUpPower2_def roundUpLoop_ge)

lemma dexRoundUpPower2_pow2: "\<exists>k. dexRoundUpPower2 n = 2 ^ k"
  unfolding dexRoundUpPower2_def by (rule roundUpLoop_pow2) (rule exI[of _ 0], simp)

section \<open>Removal\<close>

lemma removeLoop_steps:
  "tableSize t = int n \<Longrightarrow> i < n \<Longrightarrow> (n = 1 \<longrightarrow> k = 0) \<Longrightarrow>
   (\<forall>m<k. data (pEntries t ! ((i + m) mod n)) \<noteq> NULL \<and> data (pEntries t ! ((i + m) mod n)) \<noteq> item) \<Longrightarrow>
   data (pEntries t ! ((i + k) mod n)) = NULL \<or> data (pEntries t ! ((i + k) mod n)) = item \<Longrightarrow>
   removeLoop t n item i =
     Some (if data (pEntries t ! ((i + k) mod n)) = NULL then (False, t)
           else (True, killSlot t ((i + k) mod n)))"
proof (induction k arbitrary: i)
  case 0
  then show ?case
    by (subst removeLoop.simps) (auto simp: killSlot_def)
next
  case (Suc k)
  from Suc.prems have n1: "n \<noteq> 1" by simp
  from Suc.prems(4) have ns: "data (pEntries t ! i) \<noteq> NULL \<and> data (pEntries t ! i) \<noteq> item"
    using Suc.prems(2) by (metis add.right_neutral mod_less zero_less_Suc)
  let ?j = "(i + 1) mod n"
  have jn: "?j < n" using Suc.prems(2) by simp
  have shift: "\<And>m. (?j + m) mod n = (i + Suc m) mod n"
    by (simp add: mod_add_left_eq)
  have a: "\<forall>m<k. data (pEntries t ! ((?j + m) mod n)) \<noteq> NULL \<and> data (pEntries t ! ((?j + m) mod n)) \<noteq> item"
    using Suc.prems(4) shift by auto
  have b: "data (pEntries t ! ((?j + k) mod n)) = NULL \<or> data (pEntries t ! ((?j + k) mod n)) = item"
    using Suc.prems(5) shift by auto
  have ih: "removeLoop t n item ?j =
     Some (if data (pEntries t ! ((?j + k) mod n)) = NULL then (False, t)
           else (True, killSlot t ((?j + k) mod n)))"
    using Suc.IH[OF Suc.prems(1) jn _ a b] n1 by simp
  have j_eq: "?j = (if i + 1 = n then 0 else i + 1)"
    using Suc.prems(2) by auto
  have ts: "tableSize t \<noteq> 1" using Suc.prems(1) n1 by simp
  show ?case
    using ns ih ts j_eq shift[of k]
    by (subst removeLoop.simps) auto
qed

lemma removeLoop_single:
  "tableSize t = 1 \<Longrightarrow> data (pEntries t ! 0) \<noteq> NULL \<Longrightarrow> data (pEntries t ! 0) \<noteq> item \<Longrightarrow>
   removeLoop t 1 item 0 = Some (False, t)"
  by (subst removeLoop.simps) simp

text \<open>What a removal returns and what it does to the table.\<close>

lemma remove_result:
  assumes wf: "tableSize t = int (length (pEntries t))" and pow: "length (pEntries t) = 2 ^ K"
    and stops: "length (pEntries t) = 1 \<or>
      (\<exists>j<length (pEntries t). data (pEntries t ! j) = NULL \<or> data (pEntries t ! j) = item)"
  shows "\<exists>b t'. dvmHashTableRemove t h item = Some (Inr (b, t')) \<and>
     (b \<longleftrightarrow> (\<exists>k. pathFull (pEntries t) (unat h mod length (pEntries t)) (Suc k) \<and>
            data (pEntries t ! ((unat h mod length (pEntries t) + k) mod length (pEntries t))) = item)) \<and>
     (b \<longrightarrow> (\<exists>k. pathFull (pEntries t) (unat h mod length (pEntries t)) (Suc k) \<and>
            (\<forall>m<k. data (pEntries t ! ((unat h mod length (pEntries t) + m) mod length (pEntries t))) \<noteq> item) \<and>
            data (pEntries t ! ((unat h mod length (pEntries t) + k) mod length (pEntries t))) = item \<and>
            t' = killSlot t ((unat h mod length (pEntries t) + k) mod length (pEntries t)))) \<and>
     (\<not> b \<longrightarrow> t' = t) \<and> freeCalls t' = freeCalls t"
proof -
  let ?es = "pEntries t" and ?n = "length (pEntries t)"
  let ?i = "unat h mod ?n"
  let ?P = "\<lambda>m. data (?es ! ((?i + m) mod ?n)) = NULL \<or> data (?es ! ((?i + m) mod ?n)) = item"
  let ?onPath = "\<exists>k. pathFull ?es ?i (Suc k) \<and> data (?es ! ((?i + k) mod ?n)) = item"
  have pos: "0 < ?n" using pow by simp
  have ts: "0 < tableSize t" "nat (tableSize t) = ?n" using wf pos by simp_all
  have i: "?i < ?n" using pos by simp
  have fs: "firstSlot t h = ?i" using firstSlot_pow2[of t K h] wf pow by simp
  have rem: "dvmHashTableRemove t h item =
      (case removeLoop t ?n item ?i of None \<Rightarrow> None | Some r \<Rightarrow> Some (Inr r))"
    using ts fs by (simp add: dvmHashTableRemove_def)
  show ?thesis
  proof (cases "\<exists>m. ?P m")
    case True
    then obtain m0 where "?P m0" by blast
    then obtain c where c: "c \<le> m0" "\<forall>m<c. \<not> ?P m" "?P c"
      using least_witness[of ?P m0] by blast
    have c1: "?n = 1 \<longrightarrow> c = 0"
    proof
      assume "?n = 1"
      then have "?P 0" using c(3) by simp
      then show "c = 0" using c(2) by (cases c) auto
    qed
    let ?s = "(?i + c) mod ?n"
    have loop: "removeLoop t ?n item ?i =
        Some (if data (?es ! ?s) = NULL then (False, t) else (True, killSlot t ?s))"
      using removeLoop_steps[OF wf i c1, of item] c(2,3) by blast
    show ?thesis
    proof (cases "data (?es ! ?s) = NULL")
      case null: True
      have "\<not> ?onPath"
      proof
        assume ?onPath
        then obtain k where k: "pathFull ?es ?i (Suc k)" "data (?es ! ((?i + k) mod ?n)) = item"
          by blast
        then have "?P k" by simp
        then have "\<not> k < c" using c(2) by blast
        then have "c \<le> k" by simp
        then have "data (?es ! ?s) \<noteq> NULL" using k(1) by (simp add: pathFull_def)
        then show False using null by simp
      qed
      moreover have "dvmHashTableRemove t h item = Some (Inr (False, t))"
        using rem loop null by simp
      ultimately show ?thesis by (intro exI[of _ False] exI[of _ t]) simp
    next
      case nn: False
      then have it: "data (?es ! ?s) = item" using c(3) by simp
      have full: "pathFull ?es ?i (Suc c)"
        unfolding pathFull_def using c(2) nn by (auto simp: less_Suc_eq)
      have first: "\<forall>m<c. data (?es ! ((?i + m) mod ?n)) \<noteq> item" using c(2) by simp
      have res: "dvmHashTableRemove t h item = Some (Inr (True, killSlot t ?s))"
        using rem loop nn by simp
      have fc: "freeCalls (killSlot t ?s) = freeCalls t" by (simp add: killSlot_def)
      show ?thesis
        using res full first it fc by (intro exI[of _ True] exI[of _ "killSlot t ?s"]) blast
    qed
  next
    case False
    have n1: "?n = 1"
    proof (rule ccontr)
      assume "?n \<noteq> 1"
      then obtain j where j: "j < ?n" "data (?es ! j) = NULL \<or> data (?es ! j) = item"
        using stops by blast
      have "(?i + probeDist ?n ?i j) mod ?n = j" using i j(1) by (rule probeDist_reach)
      then have "?P (probeDist ?n ?i j)" using j(2) by simp
      then show False using False by blast
    qed
    have "\<not> ?P 0" using False by blast
    then have s0: "data (?es ! 0) \<noteq> NULL" "data (?es ! 0) \<noteq> item" using n1 by simp_all
    have "removeLoop t 1 item 0 = Some (False, t)"
      using removeLoop_single[OF _ s0] wf n1 by simp
    then have res: "dvmHashTableRemove t h item = Some (Inr (False, t))"
      using rem n1 by simp
    have "\<not> ?onPath" using False by blast
    then show ?thesis using res by (intro exI[of _ False] exI[of _ t]) simp
  qed
qed

text \<open>
  C5. \<^verbatim>\<open>dvmHashTableRemove\<close> on a table whose size field is the array's length, a power of
  two. The loop stops when the table has a single slot or some slot is empty or holds
  the item. It returns true exactly when some slot on the probe path from
  \<open>hash mod capacity\<close>, before any empty slot, holds a pointer identical to the item.
  Then the first such slot, and nothing else, becomes a tombstone, \<open>numEntries\<close> goes
  down by one and \<open>numDeadEntries\<close> up by one (\<open>killSlot\<close>). Otherwise the table is
  returned as it was. In both cases no call to \<^verbatim>\<open>freeFunc\<close> is made.
\<close>

theorem remove_spec:
  assumes wf: "tableSize t = int (length (pEntries t))" and pow: "length (pEntries t) = 2 ^ K"
    and stops: "length (pEntries t) = 1 \<or>
      (\<exists>j<length (pEntries t). data (pEntries t ! j) = NULL \<or> data (pEntries t ! j) = item)"
  shows "\<exists>b t'. dvmHashTableRemove t h item = Some (Inr (b, t')) \<and>
     (b \<longleftrightarrow> (\<exists>k. pathFull (pEntries t) (unat h mod length (pEntries t)) (Suc k) \<and>
            data (pEntries t ! ((unat h mod length (pEntries t) + k) mod length (pEntries t))) = item)) \<and>
     (b \<longrightarrow> (\<exists>k. pathFull (pEntries t) (unat h mod length (pEntries t)) (Suc k) \<and>
            (\<forall>m<k. data (pEntries t ! ((unat h mod length (pEntries t) + m) mod length (pEntries t))) \<noteq> item) \<and>
            data (pEntries t ! ((unat h mod length (pEntries t) + k) mod length (pEntries t))) = item \<and>
            t' = killSlot t ((unat h mod length (pEntries t) + k) mod length (pEntries t)))) \<and>
     (\<not> b \<longrightarrow> t' = t) \<and> freeCalls t' = freeCalls t"
  using remove_result[OF assms] .

theorem remove_spec_witness:
  "tableSize collideTable = int (length (pEntries collideTable)) \<and>
   length (pEntries collideTable) = 2 ^ 2 \<and>
   data (pEntries collideTable ! 0) = NULL \<and>
   dvmHashTableRemove collideTable 1 7 = Some (Inr (True, killSlot collideTable 2)) \<and>
   dvmHashTableRemove collideTable 1 6 = Some (Inr (False, collideTable))"
proof -
  have wf: "tableSize collideTable = int (length (pEntries collideTable))"
    and pow: "length (pEntries collideTable) = 2 ^ 2"
    and e: "data (pEntries collideTable ! 0) = NULL"
    by (simp_all add: collideTable_def)
  have stops: "length (pEntries collideTable) = 1 \<or>
      (\<exists>j<length (pEntries collideTable).
          data (pEntries collideTable ! j) = NULL \<or> data (pEntries collideTable ! j) = item)" for item
    using e by (intro disjI2 exI[of _ 0]) (simp add: collideTable_def)
  have r7: "dvmHashTableRemove collideTable 1 7 = Some (Inr (True, killSlot collideTable 2))"
    using remove_spec[OF wf pow stops, of 1 7]
    by (simp add: dvmHashTableRemove_def firstSlot_def collideTable_def removeLoop.simps
        killSlot_def NULL_def)
  have r6: "dvmHashTableRemove collideTable 1 6 = Some (Inr (False, collideTable))"
    by (simp add: dvmHashTableRemove_def firstSlot_def collideTable_def removeLoop.simps
        killSlot_def NULL_def)
  show ?thesis using wf pow e r7 r6 by simp
qed

section \<open>The invariant holds in every reachable table\<close>

lemma hash_inv_length: "hash_inv t \<Longrightarrow> nat (tableSize t) = length (pEntries t)"
  by (simp add: hash_inv_def table_ok_def)

lemma remove_preserves:
  assumes inv: "hash_inv t" and item: "item \<noteq> HASH_TOMBSTONE"
    and res: "dvmHashTableRemove t h item = Some (Inr (b, t'))"
  shows "hash_inv t'"
proof -
  let ?es = "pEntries t" and ?n = "length (pEntries t)"
  have wf: "tableSize t = int ?n" using inv by (simp add: hash_inv_def table_ok_def)
  obtain K where K: "?n = 2 ^ K" using inv by (auto simp: hash_inv_def table_ok_def)
  obtain j where j: "j < ?n" "data (?es ! j) = NULL" using hash_inv_empty_slot[OF inv] by blast
  then have stops: "?n = 1 \<or> (\<exists>j<?n. data (?es ! j) = NULL \<or> data (?es ! j) = item)" by blast
  from remove_result[OF wf K stops, of h] res
  have "t' = t \<or> (\<exists>k. pathFull ?es (unat h mod ?n) (Suc k) \<and>
            data (?es ! ((unat h mod ?n + k) mod ?n)) = item \<and>
            t' = killSlot t ((unat h mod ?n + k) mod ?n))"
    by auto
  then show ?thesis
  proof
    assume "t' = t"
    then show ?thesis using inv by simp
  next
    assume "\<exists>k. pathFull ?es (unat h mod ?n) (Suc k) \<and>
            data (?es ! ((unat h mod ?n + k) mod ?n)) = item \<and>
            t' = killSlot t ((unat h mod ?n + k) mod ?n)"
    then obtain k where k: "pathFull ?es (unat h mod ?n) (Suc k)"
      "data (?es ! ((unat h mod ?n + k) mod ?n)) = item"
      "t' = killSlot t ((unat h mod ?n + k) mod ?n)" by blast
    let ?s = "(unat h mod ?n + k) mod ?n"
    have "0 < ?n" using K by simp
    then have s: "?s < ?n" by simp
    have "data (?es ! ?s) \<noteq> NULL" using k(1) by (simp add: pathFull_def)
    then have "isLive (?es ! ?s)" using k(2) item by (simp add: isLive_def)
    from killSlot_inv[OF inv s this] show ?thesis using k(3) by simp
  qed
qed

lemma foreachRemoveLoop_inv:
  "hash_inv t \<Longrightarrow> i \<le> length (pEntries t) \<Longrightarrow> foreachRemoveLoop func i t = (v, t') \<Longrightarrow>
   hash_inv t'"
proof (induction i arbitrary: t)
  case 0
  then show ?case by simp
next
  case (Suc i)
  have i: "i < length (pEntries t)" using Suc.prems(2) by simp
  show ?case
  proof (cases "isLive (pEntries t ! i) \<and> func (data (pEntries t ! i)) = 1")
    case True
    then have "foreachRemoveLoop func i (killSlot t i) = (v, t')"
      using Suc.prems(3) by (simp add: isLive_def killSlot_def)
    moreover have "hash_inv (killSlot t i)" using killSlot_inv[OF Suc.prems(1) i] True by simp
    moreover have "i \<le> length (pEntries (killSlot t i))" using i by (simp add: killSlot_def)
    ultimately show ?thesis using Suc.IH by blast
  next
    case False
    then have "t' = t \<or> foreachRemoveLoop func i t = (v, t')"
      using Suc.prems(3) by (auto simp: isLive_def split: if_splits)
    then show ?thesis using Suc.IH[OF Suc.prems(1)] Suc.prems(1) i by auto
  qed
qed

lemma foreachRemove_preserves:
  "hash_inv t \<Longrightarrow> dvmHashForeachRemove t func = (v, t') \<Longrightarrow> hash_inv t'"
  using foreachRemoveLoop_inv[of t "length (pEntries t)" func v t']
  by (simp add: dvmHashForeachRemove_def hash_inv_length)

lemma clearLoop_result:
  "p + i = length es \<Longrightarrow> clearLoop ff i p es calls = (es', calls') \<Longrightarrow>
   length es' = length es \<and> (\<forall>m<length es. p \<le> m \<longrightarrow> data (es' ! m) = NULL) \<and>
   (\<forall>m<p. es' ! m = es ! m)"
proof (induction i arbitrary: p es calls)
  case 0
  then show ?case by simp
next
  case (Suc i)
  let ?es1 = "es[p := (es ! p)\<lparr>data := NULL\<rparr>]"
  have p: "p < length es" using Suc.prems(1) by simp
  have nullp: "data (?es1 ! p) = NULL" using p by simp
  show ?case
  proof (cases "data (es ! p) = NULL")
    case True
    then have "clearLoop ff i (Suc p) es calls = (es', calls')"
      using Suc.prems(2) by (simp add: tomb_not_null[symmetric])
    from Suc.IH[OF _ this] Suc.prems(1)
    have r: "length es' = length es" "\<forall>m<length es. Suc p \<le> m \<longrightarrow> data (es' ! m) = NULL"
      "\<forall>m<Suc p. es' ! m = es ! m" by auto
    have "data (es' ! p) = NULL" using r(3) True by simp
    then show ?thesis using r by (auto simp: le_Suc_eq Suc_le_eq less_Suc_eq dest: le_neq_implies_less)
  next
    case False
    then have "\<exists>calls1. clearLoop ff i (Suc p) ?es1 calls1 = (es', calls')"
      using Suc.prems(2) by (auto split: if_splits)
    then obtain calls1 where "clearLoop ff i (Suc p) ?es1 calls1 = (es', calls')" by blast
    from Suc.IH[OF _ this] Suc.prems(1)
    have r: "length es' = length es" "\<forall>m<length es. Suc p \<le> m \<longrightarrow> data (es' ! m) = NULL"
      "\<forall>m<Suc p. es' ! m = ?es1 ! m" by auto
    have "data (es' ! p) = NULL" using r(3) nullp by simp
    moreover have "\<forall>m<p. es' ! m = es ! m" using r(3) by simp
    ultimately show ?thesis using r(1,2)
      by (auto simp: le_Suc_eq Suc_le_eq less_Suc_eq dest: le_neq_implies_less)
  qed
qed

lemma all_null_counts:
  assumes "\<forall>m<length es. data (es ! m) = NULL"
  shows "liveCount es = 0" "deadCount es = 0" "chain_ok es"
proof -
  have "\<forall>e\<in>set es. data e = NULL" using assms by (auto simp: in_set_conv_nth)
  then show "liveCount es = 0" "deadCount es = 0"
    by (auto simp: liveCount_def deadCount_def isLive_def isDead_def tomb_not_null[symmetric])
  show "chain_ok es" using assms by (simp add: chain_ok_def isLive_def)
qed

lemma clear_preserves:
  assumes inv: "hash_inv t"
  shows "hash_inv (dvmHashTableClear t)"
proof -
  obtain es' calls' where r: "clearLoop (freeFunc t) (length (pEntries t)) 0 (pEntries t) (freeCalls t) = (es', calls')"
    by (cases "clearLoop (freeFunc t) (length (pEntries t)) 0 (pEntries t) (freeCalls t)") auto
  from clearLoop_result[OF _ r]
  have len: "length es' = length (pEntries t)" and null: "\<forall>m<length es'. data (es' ! m) = NULL"
    by auto
  have eq: "dvmHashTableClear t = t\<lparr>pEntries := es', freeCalls := calls', numEntries := 0, numDeadEntries := 0\<rparr>"
    using r by (simp add: dvmHashTableClear_def hash_inv_length[OF inv])
  have pos: "0 < tableSize t" using inv by (simp add: hash_inv_def table_ok_pos)
  show ?thesis
    using inv all_null_counts[OF null] len pos unfolding eq
    by (simp add: hash_inv_def table_ok_def LOAD_DENOM_def LOAD_NUMER_def)
qed

lemma create_inv:
  assumes "dvmHashTableCreate mem initialSize ff = Inr (Some t)"
  shows "hash_inv t"
proof -
  let ?n = "dexRoundUpPower2 initialSize"
  let ?es = "replicate ?n \<lparr>hashValue = 0, data = NULL\<rparr>"
  have small: "int ?n < 2 ^ 31" and t: "t = \<lparr>tableSize = int ?n, numEntries = 0, numDeadEntries = 0,
      freeFunc = ff, pEntries = ?es, freeCalls = []\<rparr>"
    using assms
    by (auto simp: dvmHashTableCreate_def calloc_def int32_def split: if_splits)
  obtain K where K: "?n = 2 ^ K" using dexRoundUpPower2_pow2 by blast
  then have "(2::int) ^ K < 2 ^ 31" using small by simp
  then have "K < 31" by (rule power_less_imp_less_exp[rotated]) simp
  then have ex: "\<exists>K\<le>30. length ?es = 2 ^ K" using K by (intro exI[of _ K]) simp
  show ?thesis
    unfolding t hash_inv_def table_ok_def using ex
    by (simp add: liveCount_replicate deadCount_replicate chain_ok_replicate
        LOAD_DENOM_def LOAD_NUMER_def)
qed

lemma reachable_inv: "reachable t \<Longrightarrow> hash_inv t"
proof (induction rule: reachable.induct)
  case (created mem initialSize ff t)
  then show ?case by (rule create_inv)
next
  case (looked_up t mem itemHash item cmpFunc doAdd r t')
  then show ?case using lookup_preserves by blast
next
  case (removed t item itemHash b t')
  then show ?case using remove_preserves by blast
next
  case (cleared t)
  then show ?case using clear_preserves by blast
next
  case (swept t func v t')
  then show ?case using foreachRemove_preserves by blast
qed

section \<open>Concrete runs\<close>

lemma create_4: "dvmHashTableCreate True 4 False = Inr (Some emptyTable)"
  by code_simp

lemma create_1: "dvmHashTableCreate True 1 False = Inr (Some unitTable)"
  by code_simp

lemma insert_first: "dvmHashTableLookup False emptyTable 1 5 ptrEq True = Some (Inr (5, oneTable))"
  by code_simp

lemma insert_second: "dvmHashTableLookup False oneTable 1 7 ptrEq True = Some (Inr (7, collideTable))"
  by code_simp

lemma insert_grows: "dvmHashTableLookup True unitTable 3 5 ptrEq True = Some (Inr (5, grownTable))"
  by code_simp

lemma reachable_emptyTable: "reachable emptyTable"
  using create_4 by (rule reachable.created)

lemma reachable_unitTable: "reachable unitTable"
  using create_1 by (rule reachable.created)

lemma reachable_collideTable: "reachable collideTable"
  using reachable.looked_up[OF reachable.looked_up[OF reachable_emptyTable insert_first] insert_second] .

section \<open>Counts and slots\<close>

text \<open>
  As long as no removal is given the tombstone sentinel (the tables of \<open>reachable\<close>),
  \<open>numEntries\<close> is the number of occupied slots of the array and \<open>numDeadEntries\<close> the
  number of tombstone slots; the scan of \<^verbatim>\<open>countTombStones\<close>, which the assertion in
  \<^verbatim>\<open>resizeHash\<close> compares with the field, gives the same number.
\<close>

lemma counts_match_slots:
  assumes "reachable t"
  shows "numEntries t = int (liveCount (pEntries t)) \<and>
         numDeadEntries t = int (deadCount (pEntries t)) \<and>
         countTombStones t = numDeadEntries t"
proof -
  have "hash_inv t" using assms by (rule reachable_inv)
  then have "table_ok t" by (simp add: hash_inv_def)
  then show ?thesis using countTombStones_eq[of t] by (simp add: table_ok_def)
qed

section \<open>The lookup for an absent key\<close>

text \<open>
  C2. In every reachable table the non-empty slots are fewer than the slots. A lookup
  without \<open>doAdd\<close> for a key that no occupied slot matches (equal hash and a compare
  result of 0; in particular a key that was never inserted, under a compare function
  that accepts only what was inserted as that key) stops: the probe loop ends after
  fewer advances than the table has slots (\<open>count\<close> is the counter of \<^verbatim>\<open>countProbes\<close>,
  so the slots examined are at most the capacity), and the lookup returns \<^verbatim>\<open>NULL\<close> and
  the table unchanged.
\<close>

theorem absent_lookup_stops:
  assumes "reachable t" and "item \<noteq> NULL" and "item \<noteq> HASH_TOMBSTONE"
    and "\<forall>e\<in>set (pEntries t). \<not> (isLive e \<and> hashValue e = itemHash \<and> cmpFunc (data e) item = 0)"
  shows "numEntries t + numDeadEntries t < tableSize t \<and>
         (\<exists>pEntry count. lookupProbe t itemHash item cmpFunc = Some (pEntry, count) \<and>
            int count < tableSize t) \<and>
         dvmHashTableLookup mem t itemHash item cmpFunc False = Some (Inr (NULL, t))"
proof -
  have inv: "hash_inv t" using assms(1) by (rule reachable_inv)
  then have tok: "table_ok t" by (simp add: hash_inv_def)
  have pos: "0 < tableSize t" using tok by (rule table_ok_pos)
  have nn: "0 \<le> numEntries t" "0 \<le> numDeadEntries t" using table_ok_counts[OF tok] by simp_all
  have "numEntries t * 8 + numDeadEntries t * 8 \<le> tableSize t * 5"
    using inv by (simp add: hash_inv_def LOAD_DENOM_def LOAD_NUMER_def distrib_right)
  then have lt: "numEntries t + numDeadEntries t < tableSize t" using pos by linarith
  from lookup_absent_inv[where h = itemHash and cmp = cmpFunc and mem = mem, OF inv assms(2,3,4)]
  show ?thesis using lt by blast
qed

theorem absent_lookup_stops_witness:
  "reachable collideTable \<and> lookupProbe collideTable 1 6 ptrEq = Some (3, 2) \<and>
   (2::int) < tableSize collideTable \<and>
   dvmHashTableLookup False collideTable 1 6 ptrEq False = Some (Inr (NULL, collideTable))"
proof -
  have nomatch: "\<forall>e\<in>set (pEntries collideTable).
      \<not> (isLive e \<and> hashValue e = 1 \<and> ptrEq (data e) 6 = 0)"
    by (simp add: collideTable_def ptrEq_def)
  have x: "(6::ptr) \<noteq> NULL" "(6::ptr) \<noteq> HASH_TOMBSTONE"
    by (simp_all add: NULL_def HASH_TOMBSTONE_def)
  have p: "lookupProbe collideTable 1 6 ptrEq = Some (3, 2)" by code_simp
  have s: "(2::int) < tableSize collideTable" by (simp add: collideTable_def)
  from absent_lookup_stops[where cmpFunc = ptrEq and itemHash = 1 and mem = False,
      OF reachable_collideTable x nomatch]
  show ?thesis using reachable_collideTable p s by simp
qed

section \<open>The load factor after an insertion\<close>

lemma lookup_add_size:
  assumes inv: "hash_inv t" and res: "dvmHashTableLookup mem t h x cmp True = Some (Inr (r, t'))"
  shows "tableSize t' = tableSize t \<or>
         (tableSize t' = 2 * tableSize t \<and> numDeadEntries t' = 0 \<and> numEntries t' = numEntries t + 1)"
proof -
  have x: "x \<noteq> NULL" "x \<noteq> HASH_TOMBSTONE"
    using res by (auto simp: dvmHashTableLookup_def split: if_splits)
  show ?thesis
  proof (cases "\<forall>e\<in>set (pEntries t). \<not> (isLive e \<and> hashValue e = h \<and> cmp (data e) x = 0)")
    case True
    from lookup_add_Inr[where cmp = cmp, OF inv x True res] show ?thesis by auto
  next
    case False
    then obtain e where "e \<in> set (pEntries t)" "isLive e" "hashValue e = h" "cmp (data e) x = 0"
      by blast
    then obtain j where "j < length (pEntries t)" "isLive (pEntries t ! j)"
      "hashValue (pEntries t ! j) = h" "cmp (data (pEntries t ! j)) x = 0"
      by (auto simp: in_set_conv_nth)
    from lookup_found_inv[where cmp = cmp, OF inv x this, of mem True] res show ?thesis by auto
  qed
qed

text \<open>
  C4. When a lookup with \<open>doAdd\<close> on a reachable table returns, and so after every
  insertion of a new entry, the load-factor bound holds in the table it returns; the size
  of that table is either the one before, or twice the one before, and then the
  tombstones are gone and the entry has been counted.
\<close>

theorem insertion_keeps_load:
  assumes "reachable t"
    and "dvmHashTableLookup mem t itemHash item cmpFunc True = Some (Inr (r, t'))"
  shows "(numEntries t' + numDeadEntries t') * 8 \<le> tableSize t' * 5 \<and>
         (tableSize t' = tableSize t \<or>
          (tableSize t' = 2 * tableSize t \<and> numDeadEntries t' = 0 \<and>
           numEntries t' = numEntries t + 1))"
proof -
  have inv: "hash_inv t" using assms(1) by (rule reachable_inv)
  have "hash_inv t'" using lookup_preserves[OF inv assms(2)] .
  then have "(numEntries t' + numDeadEntries t') * 8 \<le> tableSize t' * 5"
    by (simp add: hash_inv_def LOAD_DENOM_def LOAD_NUMER_def)
  then show ?thesis using lookup_add_size[OF inv assms(2)] by simp
qed

theorem insertion_keeps_load_witness:
  "reachable emptyTable \<and> reachable unitTable \<and>
   dvmHashTableLookup False emptyTable 1 5 ptrEq True = Some (Inr (5, oneTable)) \<and>
   (numEntries oneTable + numDeadEntries oneTable) * 8 \<le> tableSize oneTable * 5 \<and>
   tableSize oneTable = tableSize emptyTable \<and>
   dvmHashTableLookup True unitTable 3 5 ptrEq True = Some (Inr (5, grownTable)) \<and>
   (numEntries grownTable + numDeadEntries grownTable) * 8 \<le> tableSize grownTable * 5 \<and>
   tableSize grownTable = 2 * tableSize unitTable"
proof -
  have a: "tableSize oneTable = tableSize emptyTable" "tableSize grownTable = 2 * tableSize unitTable"
    by (simp_all add: oneTable_def emptyTable_def grownTable_def unitTable_def)
  from insertion_keeps_load[OF reachable_emptyTable insert_first]
       insertion_keeps_load[OF reachable_unitTable insert_grows]
  show ?thesis using a reachable_emptyTable reachable_unitTable insert_first insert_grows by simp
qed

section \<open>Finding a stored key\<close>

lemma contents_nth: "j < length es \<Longrightarrow> isLive (es ! j) \<Longrightarrow> (hashValue (es ! j), data (es ! j)) \<in> contents es"
  by (auto simp: contents_def)

lemma contents_slot:
  "(h, d) \<in> contents es \<Longrightarrow> \<exists>j<length es. isLive (es ! j) \<and> hashValue (es ! j) = h \<and> data (es ! j) = d"
  by (auto simp: contents_def in_set_conv_nth)

lemma keys_distinct_subset: "keys_distinct cmp C \<Longrightarrow> D \<subseteq> C \<Longrightarrow> keys_distinct cmp D"
  unfolding keys_distinct_def by (fastforce simp: subset_iff)

text \<open>
  On a table that satisfies the invariant and whose keys are distinct, a lookup for a
  stored key returns the stored pointer and the table as it was.
\<close>

lemma lookup_found_unique:
  assumes inv: "hash_inv t" and dist: "keys_distinct cmp (contents (pEntries t))"
    and mem: "(h, x) \<in> contents (pEntries t)"
  shows "dvmHashTableLookup m t h x cmp doAdd = Some (Inr (x, t))"
proof -
  obtain j where j: "j < length (pEntries t)" "isLive (pEntries t ! j)"
    "hashValue (pEntries t ! j) = h" "data (pEntries t ! j) = x"
    using contents_slot[OF mem] by blast
  have x: "x \<noteq> NULL" "x \<noteq> HASH_TOMBSTONE" using j(2,4) by (auto simp: isLive_def)
  have refl: "cmp x x = 0" using dist mem by (auto simp: keys_distinct_def)
  then have "cmp (data (pEntries t ! j)) x = 0" using j(4) by simp
  from lookup_found_inv[where cmp = cmp, OF inv x j(1,2,3) this, of m doAdd]
  obtain i where i: "i < length (pEntries t)" "isLive (pEntries t ! i)"
    "hashValue (pEntries t ! i) = h" "cmp (data (pEntries t ! i)) x = 0"
    "dvmHashTableLookup m t h x cmp doAdd = Some (Inr (data (pEntries t ! i), t))"
    by blast
  have "(h, data (pEntries t ! i)) \<in> contents (pEntries t)"
    using contents_nth[OF i(1,2)] i(3) by simp
  then have "data (pEntries t ! i) = x"
    using dist mem i(4) by (fastforce simp: keys_distinct_def)
  then show ?thesis using i(5) by simp
qed

section \<open>What a resize keeps\<close>

lemma resize_result:
  assumes ok: "table_ok t" and small: "tableSize t * 2 < 2 ^ 31"
    and dist: "keys_distinct cmp (contents (pEntries t))"
  shows "\<exists>t'. resizeHash True t (tableSize t * 2) = Some (Inr (True, t')) \<and>
     numDeadEntries t' = 0 \<and> deadCount (pEntries t') = 0 \<and>
     tableSize t' = 2 * tableSize t \<and> length (pEntries t') = 2 * length (pEntries t) \<and>
     numEntries t' = numEntries t \<and> liveCount (pEntries t') = liveCount (pEntries t) \<and>
     contents (pEntries t') = contents (pEntries t) \<and>
     (\<forall>(h, d)\<in>contents (pEntries t).
        dvmHashTableLookup mem t' h d cmp False = Some (Inr (d, t')))"
proof -
  obtain new' where new':
    "resizeHash True t (tableSize t * 2) =
       Some (Inr (True, t\<lparr>pEntries := new', tableSize := tableSize t * 2, numDeadEntries := 0\<rparr>))"
    "length new' = 2 * length (pEntries t)"
    "\<forall>e\<in>set new'. data e \<noteq> HASH_TOMBSTONE"
    "liveCount new' = liveCount (pEntries t)" "contents new' = contents (pEntries t)"
    "table_ok (t\<lparr>pEntries := new', tableSize := tableSize t * 2, numDeadEntries := 0\<rparr>)"
    using resizeHash_ok[OF ok small] by blast
  let ?t' = "t\<lparr>pEntries := new', tableSize := tableSize t * 2, numDeadEntries := 0\<rparr>"
  have dead: "deadCount new' = 0" using new'(3) by (rule no_tomb_deadCount)
  have ts: "tableSize t = int (length (pEntries t))" "numEntries t = int (liveCount (pEntries t))"
    using ok by (simp_all add: table_ok_def)
  have "liveCount (pEntries t) \<le> length (pEntries t)" by (rule liveCount_le)
  then have "numEntries t * 8 \<le> tableSize t * 2 * 5" using ts by simp
  then have inv': "hash_inv ?t'"
    using new'(6) by (simp add: hash_inv_def LOAD_DENOM_def LOAD_NUMER_def)
  have dist': "keys_distinct cmp (contents (pEntries ?t'))" using dist new'(5) by simp
  have found: "\<forall>(h, d)\<in>contents (pEntries t).
        dvmHashTableLookup mem ?t' h d cmp False = Some (Inr (d, ?t'))"
  proof (clarify)
    fix h d assume "(h, d) \<in> contents (pEntries t)"
    then have "(h, d) \<in> contents (pEntries ?t')" using new'(5) by simp
    from lookup_found_unique[OF inv' dist' this]
    show "dvmHashTableLookup mem ?t' h d cmp False = Some (Inr (d, ?t'))" .
  qed
  show ?thesis
    using new'(1,2,4,5) dead found by (intro exI[of _ ?t']) simp
qed

text \<open>
  C3. A resize of a well-formed table to twice its size, as the lookup calls it after
  an insertion, returns (its loops stop and its assertions hold when the allocation
  succeeds). Afterwards \<open>numDeadEntries\<close> is 0 and no slot is a tombstone, the capacity
  has doubled, the occupied entries (stored hash and value) are the ones from before,
  and a lookup for each of them with its stored hash returns it from the new array,
  provided the keys of the table are distinct under the compare function used.
\<close>

theorem resize_keeps_entries:
  assumes "table_ok t" and "tableSize t * 2 < 2 ^ 31"
    and "keys_distinct cmpFunc (contents (pEntries t))"
  shows "\<exists>t'. resizeHash True t (tableSize t * 2) = Some (Inr (True, t')) \<and>
     numDeadEntries t' = 0 \<and> deadCount (pEntries t') = 0 \<and>
     tableSize t' = 2 * tableSize t \<and> length (pEntries t') = 2 * length (pEntries t) \<and>
     numEntries t' = numEntries t \<and> liveCount (pEntries t') = liveCount (pEntries t) \<and>
     contents (pEntries t') = contents (pEntries t) \<and>
     (\<forall>(h, d)\<in>contents (pEntries t).
        dvmHashTableLookup mem t' h d cmpFunc False = Some (Inr (d, t')))"
  using resize_result[OF assms] .

lemma keys_distinct_ptrEq: "keys_distinct ptrEq C"
  by (auto simp: keys_distinct_def ptrEq_def)

lemma remove_first: "dvmHashTableRemove collideTable 1 5 = Some (Inr (True, tombTable))"
  by code_simp

lemma reachable_tombTable: "reachable tombTable"
proof -
  have "(5::ptr) \<noteq> HASH_TOMBSTONE" by (simp add: HASH_TOMBSTONE_def)
  from reachable.removed[OF reachable_collideTable this remove_first] show ?thesis .
qed

theorem resize_keeps_entries_witness:
  "table_ok tombTable \<and> tableSize tombTable * 2 < 2 ^ 31 \<and>
   resizeHash True tombTable 8 = Some (Inr (True, resizedTable)) \<and>
   numDeadEntries resizedTable = 0 \<and> deadCount (pEntries resizedTable) = 0 \<and>
   dvmHashTableLookup False resizedTable 1 7 ptrEq False = Some (Inr (7, resizedTable))"
proof -
  have ok: "table_ok tombTable"
    using reachable_inv[OF reachable_tombTable] by (simp add: hash_inv_def)
  have small: "tableSize tombTable * 2 < 2 ^ 31" by (simp add: tombTable_def)
  have r: "resizeHash True tombTable 8 = Some (Inr (True, resizedTable))" by code_simp
  have l: "dvmHashTableLookup False resizedTable 1 7 ptrEq False = Some (Inr (7, resizedTable))"
    by code_simp
  have ts: "tableSize tombTable * 2 = 8" by (simp add: tombTable_def)
  from resize_keeps_entries[OF ok small keys_distinct_ptrEq, of False]
  have "numDeadEntries resizedTable = 0 \<and> deadCount (pEntries resizedTable) = 0"
    using r ts by auto
  then show ?thesis using ok small r l by simp
qed

section \<open>A sweep that removes one entry\<close>

lemma foreachRemoveLoop_keep:
  "(\<forall>m<i. isLive (pEntries t ! m) \<longrightarrow> func (data (pEntries t ! m)) = 0) \<Longrightarrow>
   foreachRemoveLoop func i t = (0, t)"
  by (induction i) (auto simp: isLive_def)

lemma foreachRemoveLoop_one:
  "j < i \<Longrightarrow> i \<le> length (pEntries t) \<Longrightarrow> isLive (pEntries t ! j) \<Longrightarrow>
   func (data (pEntries t ! j)) = 1 \<Longrightarrow>
   (\<forall>m<i. m \<noteq> j \<longrightarrow> isLive (pEntries t ! m) \<longrightarrow> func (data (pEntries t ! m)) = 0) \<Longrightarrow>
   foreachRemoveLoop func i t = (0, killSlot t j)"
proof (induction i)
  case 0
  then show ?case by simp
next
  case (Suc i)
  show ?case
  proof (cases "i = j")
    case True
    have "\<forall>m<j. isLive (pEntries (killSlot t j) ! m) \<longrightarrow> func (data (pEntries (killSlot t j) ! m)) = 0"
      using Suc.prems(5) True by (simp add: killSlot_def)
    then have "foreachRemoveLoop func j (killSlot t j) = (0, killSlot t j)"
      by (rule foreachRemoveLoop_keep)
    then show ?thesis using True Suc.prems(3,4) by (simp add: isLive_def killSlot_def)
  next
    case False
    then have ji: "j < i" using Suc.prems(1) by simp
    have ih: "foreachRemoveLoop func i t = (0, killSlot t j)"
      using Suc.IH ji Suc.prems(2,3,4,5) by simp
    have "isLive (pEntries t ! i) \<longrightarrow> func (data (pEntries t ! i)) = 0"
      using Suc.prems(5) False by simp
    then show ?thesis using ih by (auto simp: isLive_def)
  qed
qed

lemma contents_kill_subset:
  "contents (es[j := (es ! j)\<lparr>data := HASH_TOMBSTONE\<rparr>]) \<subseteq> contents es"
proof
  fix p assume "p \<in> contents (es[j := (es ! j)\<lparr>data := HASH_TOMBSTONE\<rparr>])"
  then obtain e where e: "e \<in> set (es[j := (es ! j)\<lparr>data := HASH_TOMBSTONE\<rparr>])" "isLive e"
    "p = (hashValue e, data e)" by (auto simp: contents_def)
  have "e \<in> insert ((es ! j)\<lparr>data := HASH_TOMBSTONE\<rparr>) (set es)"
    using e(1) set_update_subset_insert by fastforce
  then have "e \<in> set es" using e(2) by (auto simp: isLive_def)
  then show "p \<in> contents es" using e(2,3) by (auto simp: contents_def)
qed

lemma sweep_result:
  assumes reach: "reachable t" and dist: "keys_distinct cmp (contents (pEntries t))"
    and j: "j < length (pEntries t)" "isLive (pEntries t ! j)" "func (data (pEntries t ! j)) = 1"
    and keep: "\<forall>i<length (pEntries t). i \<noteq> j \<longrightarrow> isLive (pEntries t ! i) \<longrightarrow>
                 func (data (pEntries t ! i)) = 0"
  shows "dvmHashForeachRemove t func = (0, killSlot t j) \<and>
     numEntries (killSlot t j) = numEntries t - 1 \<and>
     numDeadEntries (killSlot t j) = numDeadEntries t + 1 \<and>
     data (pEntries (killSlot t j) ! j) = HASH_TOMBSTONE \<and>
     freeCalls (killSlot t j) = freeCalls t \<and>
     dvmHashTableLookup mem (killSlot t j) (hashValue (pEntries t ! j)) (data (pEntries t ! j)) cmp False =
       Some (Inr (NULL, killSlot t j)) \<and>
     (\<forall>i<length (pEntries t). i \<noteq> j \<longrightarrow> isLive (pEntries t ! i) \<longrightarrow>
        dvmHashTableLookup mem (killSlot t j) (hashValue (pEntries t ! i)) (data (pEntries t ! i)) cmp False =
          Some (Inr (data (pEntries t ! i), killSlot t j)))"
proof -
  let ?es = "pEntries t" and ?t' = "killSlot t j"
  let ?hj = "hashValue (?es ! j)" and ?dj = "data (?es ! j)"
  have inv: "hash_inv t" using reach by (rule reachable_inv)
  have inv': "hash_inv ?t'" using killSlot_inv[OF inv j(1,2)] .
  have len: "nat (tableSize t) = length ?es" using inv by (rule hash_inv_length)
  have sweep: "dvmHashForeachRemove t func = (0, ?t')"
    unfolding dvmHashForeachRemove_def len
    using foreachRemoveLoop_one[where func = func and t = t and j = j and i = "length ?es"] j keep
    by simp
  have sub: "contents (pEntries ?t') \<subseteq> contents ?es"
    using contents_kill_subset[of ?es j] by (simp add: killSlot_def)
  have dist': "keys_distinct cmp (contents (pEntries ?t'))"
    using keys_distinct_subset[OF dist sub] .
  have valid: "?dj \<noteq> NULL" "?dj \<noteq> HASH_TOMBSTONE" using j(2) by (auto simp: isLive_def)
  have inj: "(?hj, ?dj) \<in> contents ?es" using contents_nth[OF j(1,2)] .
  have nomatch: "\<forall>e\<in>set (pEntries ?t'). \<not> (isLive e \<and> hashValue e = ?hj \<and> cmp (data e) ?dj = 0)"
  proof (intro ballI notI)
    fix e assume e: "e \<in> set (pEntries ?t')" and m: "isLive e \<and> hashValue e = ?hj \<and> cmp (data e) ?dj = 0"
    obtain i where i: "i < length ?es" "pEntries ?t' ! i = e"
      using e by (auto simp: in_set_conv_nth killSlot_def)
    have ij: "i \<noteq> j" using i m j(1) by (auto simp: killSlot_def isLive_def)
    then have ei: "?es ! i = e" using i by (simp add: killSlot_def)
    then have "(?hj, data e) \<in> contents ?es" using contents_nth[OF i(1)] m by auto
    then have "data e = ?dj" using dist inj m by (fastforce simp: keys_distinct_def)
    then have "func (data (?es ! i)) = 1" using ei j(3) by simp
    moreover have "isLive (?es ! i)" using ei m by simp
    then have "func (data (?es ! i)) = 0" using keep i(1) ij by blast
    ultimately show False by simp
  qed
  have gone: "dvmHashTableLookup mem ?t' ?hj ?dj cmp False = Some (Inr (NULL, ?t'))"
    using lookup_absent_inv[where h = ?hj and cmp = cmp and mem = mem, OF inv' valid nomatch]
    by blast
  have kept: "\<forall>i<length ?es. i \<noteq> j \<longrightarrow> isLive (?es ! i) \<longrightarrow>
        dvmHashTableLookup mem ?t' (hashValue (?es ! i)) (data (?es ! i)) cmp False =
          Some (Inr (data (?es ! i), ?t'))"
  proof (intro allI impI)
    fix i assume i: "i < length ?es" "i \<noteq> j" "isLive (?es ! i)"
    have "pEntries ?t' ! i = ?es ! i" using i(2) by (simp add: killSlot_def)
    moreover have "i < length (pEntries ?t')" using i(1) by (simp add: killSlot_def)
    ultimately have "(hashValue (?es ! i), data (?es ! i)) \<in> contents (pEntries ?t')"
      using contents_nth[of i "pEntries ?t'"] i(3) by simp
    from lookup_found_unique[OF inv' dist' this]
    show "dvmHashTableLookup mem ?t' (hashValue (?es ! i)) (data (?es ! i)) cmp False =
          Some (Inr (data (?es ! i), ?t'))" .
  qed
  have fields: "numEntries ?t' = numEntries t - 1" "numDeadEntries ?t' = numDeadEntries t + 1"
    "data (pEntries ?t' ! j) = HASH_TOMBSTONE" "freeCalls ?t' = freeCalls t"
    using j(1) by (simp_all add: killSlot_def)
  show ?thesis using sweep fields gone kept by blast
qed

text \<open>
  C8. On a reachable table with distinct keys, a \<^verbatim>\<open>dvmHashForeachRemove\<close> whose visitor returns
  1 for the value of one occupied slot and 0 for the values of all the others returns 0.
  The slot of the removed entry is a tombstone afterwards, \<open>numEntries\<close> is one less and
  \<open>numDeadEntries\<close> one more, no call to \<^verbatim>\<open>freeFunc\<close> has been made, and nothing else has
  changed (\<open>killSlot\<close>). In the table it leaves, a lookup for the removed entry returns
  \<^verbatim>\<open>NULL\<close> and a lookup for every other entry returns that entry.
\<close>

theorem sweep_removes_one:
  assumes "reachable t" and "keys_distinct cmpFunc (contents (pEntries t))"
    and "j < length (pEntries t)" and "isLive (pEntries t ! j)" and "func (data (pEntries t ! j)) = 1"
    and "\<forall>i<length (pEntries t). i \<noteq> j \<longrightarrow> isLive (pEntries t ! i) \<longrightarrow>
           func (data (pEntries t ! i)) = 0"
  shows "dvmHashForeachRemove t func = (0, killSlot t j) \<and>
     numEntries (killSlot t j) = numEntries t - 1 \<and>
     numDeadEntries (killSlot t j) = numDeadEntries t + 1 \<and>
     data (pEntries (killSlot t j) ! j) = HASH_TOMBSTONE \<and>
     freeCalls (killSlot t j) = freeCalls t \<and>
     dvmHashTableLookup mem (killSlot t j) (hashValue (pEntries t ! j)) (data (pEntries t ! j)) cmpFunc False =
       Some (Inr (NULL, killSlot t j)) \<and>
     (\<forall>i<length (pEntries t). i \<noteq> j \<longrightarrow> isLive (pEntries t ! i) \<longrightarrow>
        dvmHashTableLookup mem (killSlot t j) (hashValue (pEntries t ! i)) (data (pEntries t ! i)) cmpFunc False =
          Some (Inr (data (pEntries t ! i), killSlot t j)))"
  using sweep_result[OF assms] .

lemma insert_third: "dvmHashTableLookup True collideTable 2 9 ptrEq True = Some (Inr (9, threeTable))"
  by code_simp

lemma reachable_threeTable: "reachable threeTable"
  using reachable.looked_up[OF reachable_collideTable insert_third] .

theorem sweep_removes_one_witness:
  "reachable threeTable \<and> isLive (pEntries threeTable ! 1) \<and>
   removeSeven (data (pEntries threeTable ! 1)) = 1 \<and>
   dvmHashForeachRemove threeTable removeSeven = (0, sweptTable) \<and>
   numEntries sweptTable = numEntries threeTable - 1 \<and>
   numDeadEntries sweptTable = numDeadEntries threeTable + 1 \<and>
   freeCalls sweptTable = freeCalls threeTable \<and>
   dvmHashTableLookup False sweptTable 1 7 ptrEq False = Some (Inr (NULL, sweptTable)) \<and>
   dvmHashTableLookup False sweptTable 1 5 ptrEq False = Some (Inr (5, sweptTable)) \<and>
   dvmHashTableLookup False sweptTable 2 9 ptrEq False = Some (Inr (9, sweptTable))"
proof -
  have k: "killSlot threeTable 1 = sweptTable" by code_simp
  have j: "1 < length (pEntries threeTable)" "isLive (pEntries threeTable ! 1)"
    "removeSeven (data (pEntries threeTable ! 1)) = 1"
    by (simp_all add: threeTable_def isLive_def removeSeven_def NULL_def HASH_TOMBSTONE_def)
  have keep: "\<forall>i<length (pEntries threeTable). i \<noteq> 1 \<longrightarrow> isLive (pEntries threeTable ! i) \<longrightarrow>
           removeSeven (data (pEntries threeTable ! i)) = 0"
    by (auto simp: threeTable_def removeSeven_def isLive_def NULL_def nth_Cons split: nat.splits)
  have l: "dvmHashTableLookup False sweptTable 1 5 ptrEq False = Some (Inr (5, sweptTable))"
    "dvmHashTableLookup False sweptTable 2 9 ptrEq False = Some (Inr (9, sweptTable))"
    by code_simp+
  have e: "hashValue (pEntries threeTable ! 1) = 1" "data (pEntries threeTable ! 1) = 7"
    by (simp_all add: threeTable_def)
  from sweep_removes_one[where func = removeSeven and cmpFunc = ptrEq and mem = False,
      OF reachable_threeTable keys_distinct_ptrEq j keep]
  show ?thesis using reachable_threeTable j(2,3) l unfolding k e by simp
qed

section \<open>Sequences of insertions\<close>

lemma lookup_add_contents:
  assumes inv: "hash_inv t" and dist: "keys_distinct cmp (insert (h, x) (contents (pEntries t)))"
    and res: "dvmHashTableLookup mem t h x cmp True = Some (Inr (r, t'))"
  shows "hash_inv t' \<and> contents (pEntries t') = insert (h, x) (contents (pEntries t))"
proof (cases "(h, x) \<in> contents (pEntries t)")
  case True
  have d: "keys_distinct cmp (contents (pEntries t))"
    using keys_distinct_subset[OF dist] by blast
  from lookup_found_unique[OF inv d True, of mem True] res
  have "t' = t" by simp
  then show ?thesis using inv True by auto
next
  case False
  have x: "x \<noteq> NULL" "x \<noteq> HASH_TOMBSTONE"
    using res by (auto simp: dvmHashTableLookup_def split: if_splits)
  have nomatch: "\<forall>e\<in>set (pEntries t). \<not> (isLive e \<and> hashValue e = h \<and> cmp (data e) x = 0)"
  proof (intro ballI notI)
    fix e assume e: "e \<in> set (pEntries t)" and m: "isLive e \<and> hashValue e = h \<and> cmp (data e) x = 0"
    then have "(h, data e) \<in> contents (pEntries t)" by (auto simp: contents_def)
    then have "data e = x" using dist m by (fastforce simp: keys_distinct_def)
    then have "(h, x) \<in> contents (pEntries t)" using e m by (auto simp: contents_def)
    then show False using False by simp
  qed
  from lookup_add_Inr[where cmp = cmp, OF inv x nomatch res] show ?thesis by simp
qed

lemma insertAll_contents:
  "hash_inv t0 \<Longrightarrow> keys_distinct cmp (contents (pEntries t0) \<union> snd ` set ops) \<Longrightarrow>
   insertAll cmp t0 ops = Some (Inr t) \<Longrightarrow>
   hash_inv t \<and> contents (pEntries t) = contents (pEntries t0) \<union> snd ` set ops"
proof (induction ops arbitrary: t0)
  case Nil
  then show ?case by simp
next
  case (Cons op ops)
  obtain mem h x where op: "op = (mem, h, x)" by (cases op) auto
  from Cons.prems(3) obtain r t1 where
    l: "dvmHashTableLookup mem t0 h x cmp True = Some (Inr (r, t1))"
    and rest: "insertAll cmp t1 ops = Some (Inr t)"
    unfolding op by (auto split: option.splits sum.splits)
  have d0: "keys_distinct cmp (insert (h, x) (contents (pEntries t0)))"
    using keys_distinct_subset[OF Cons.prems(2)] unfolding op by auto
  from lookup_add_contents[OF Cons.prems(1) d0 l]
  have t1: "hash_inv t1" "contents (pEntries t1) = insert (h, x) (contents (pEntries t0))"
    by simp_all
  have d1: "keys_distinct cmp (contents (pEntries t1) \<union> snd ` set ops)"
    using keys_distinct_subset[OF Cons.prems(2)] t1(2) unfolding op by auto
  from Cons.IH[OF t1(1) d1 rest] show ?case using t1(2) unfolding op by auto
qed

lemma create_contents:
  "dvmHashTableCreate mem initialSize ff = Inr (Some t) \<Longrightarrow> contents (pEntries t) = {}"
  by (auto simp: dvmHashTableCreate_def calloc_def contents_replicate split: if_splits)

lemma inserted_result:
  assumes create: "dvmHashTableCreate mem0 initialSize ff = Inr (Some t0)"
    and dist: "keys_distinct cmp (snd ` set ops)"
    and run: "insertAll cmp t0 ops = Some (Inr t)"
    and key: "(m, h, x) \<in> set ops"
  shows "dvmHashTableLookup mem t h x cmp False = Some (Inr (x, t))"
proof -
  have inv0: "hash_inv t0" using create by (rule create_inv)
  have c0: "contents (pEntries t0) = {}" using create by (rule create_contents)
  from insertAll_contents[OF inv0 _ run] dist c0
  have t: "hash_inv t" "contents (pEntries t) = snd ` set ops" by simp_all
  have "(h, x) \<in> contents (pEntries t)" using key t(2) by force
  from lookup_found_unique[OF t(1) _ this] dist t(2) show ?thesis by simp
qed

text \<open>
  C1. Take a table as \<^verbatim>\<open>dvmHashTableCreate\<close> returns it and any sequence of insertions, each
  a lookup with \<open>doAdd\<close>, all of which return; let the keys be distinct under the compare
  function (it accepts each item as itself and no other item of the sequence with the
  same hash). Then in the final table a lookup without \<open>doAdd\<close> for any of the inserted
  keys, with the hash it was inserted with, returns the pointer that was inserted, and
  leaves the table as it is.
\<close>

theorem inserted_keys_found:
  assumes "dvmHashTableCreate mem0 initialSize ff = Inr (Some t0)"
    and "keys_distinct cmpFunc (snd ` set ops)"
    and "insertAll cmpFunc t0 ops = Some (Inr t)"
    and "(m, itemHash, item) \<in> set ops"
  shows "dvmHashTableLookup mem t itemHash item cmpFunc False = Some (Inr (item, t))"
  using inserted_result[OF assms] .

theorem inserted_keys_found_witness:
  "dvmHashTableCreate True 4 False = Inr (Some emptyTable) \<and>
   insertAll ptrEq emptyTable [(False, 1, 5), (False, 1, 7), (True, 2, 9)] = Some (Inr threeTable) \<and>
   dvmHashTableLookup False threeTable 1 5 ptrEq False = Some (Inr (5, threeTable)) \<and>
   dvmHashTableLookup False threeTable 1 7 ptrEq False = Some (Inr (7, threeTable)) \<and>
   dvmHashTableLookup False threeTable 2 9 ptrEq False = Some (Inr (9, threeTable))"
proof -
  have run: "insertAll ptrEq emptyTable [(False, 1, 5), (False, 1, 7), (True, 2, 9)] = Some (Inr threeTable)"
    by (simp add: insert_first insert_second insert_third)
  note found = inserted_keys_found[where cmpFunc = ptrEq and mem = False,
      OF create_4 keys_distinct_ptrEq run]
  have "dvmHashTableLookup False threeTable 1 5 ptrEq False = Some (Inr (5, threeTable))"
    by (rule found[of False]) simp
  moreover have "dvmHashTableLookup False threeTable 1 7 ptrEq False = Some (Inr (7, threeTable))"
    by (rule found[of False]) simp
  moreover have "dvmHashTableLookup False threeTable 2 9 ptrEq False = Some (Inr (9, threeTable))"
    by (rule found[of True]) simp
  ultimately show ?thesis using create_4 run by simp
qed

section \<open>Insertions that fit the capacity hint\<close>

lemma lookup_add_fits:
  assumes inv: "hash_inv t" and x: "x \<noteq> NULL" "x \<noteq> HASH_TOMBSTONE"
    and small: "tableSize t * 5 < 2 ^ 31"
    and room: "(numEntries t + 1 + numDeadEntries t) * 8 \<le> tableSize t * 5"
  shows "\<exists>r t'. dvmHashTableLookup mem t h x cmp True = Some (Inr (r, t')) \<and> hash_inv t' \<and>
           tableSize t' = tableSize t \<and> numDeadEntries t' = numDeadEntries t \<and>
           numEntries t' \<le> numEntries t + 1"
proof (cases "\<forall>e\<in>set (pEntries t). \<not> (isLive e \<and> hashValue e = h \<and> cmp (data e) x = 0)")
  case True
  let ?es = "pEntries t"
  obtain s where s: "s < length ?es"
    "dvmHashTableLookup mem t h x cmp True =
       afterAdd mem (t\<lparr>pEntries := ?es[s := \<lparr>hashValue = h, data = x\<rparr>], numEntries := numEntries t + 1\<rparr>) x"
    "table_ok (t\<lparr>pEntries := ?es[s := \<lparr>hashValue = h, data = x\<rparr>], numEntries := numEntries t + 1\<rparr>)"
    using lookup_add_slot[where h = h and cmp = cmp and mem = mem, OF inv x True] by blast
  let ?t1 = "t\<lparr>pEntries := ?es[s := \<lparr>hashValue = h, data = x\<rparr>], numEntries := numEntries t + 1\<rparr>"
  have load: "(numEntries ?t1 + numDeadEntries ?t1) * 8 \<le> tableSize ?t1 * 5" using room by simp
  have small1: "tableSize ?t1 * 5 < 2 ^ 31" using small by simp
  have "afterAdd mem ?t1 x = Some (Inr (x, ?t1))" by (rule afterAdd_fits[OF s(3) load small1])
  moreover have "hash_inv ?t1"
    using s(3) load by (simp add: hash_inv_def LOAD_DENOM_def LOAD_NUMER_def)
  ultimately show ?thesis using s(2) by (intro exI[of _ x] exI[of _ ?t1]) simp
next
  case False
  then obtain e where "e \<in> set (pEntries t)" "isLive e" "hashValue e = h" "cmp (data e) x = 0"
    by blast
  then obtain j where "j < length (pEntries t)" "isLive (pEntries t ! j)"
    "hashValue (pEntries t ! j) = h" "cmp (data (pEntries t ! j)) x = 0"
    by (auto simp: in_set_conv_nth)
  from lookup_found_inv[where cmp = cmp, OF inv x this, of mem True] inv
  show ?thesis by auto
qed

lemma insertAll_no_resize:
  "hash_inv t0 \<Longrightarrow> tableSize t0 * 5 < 2 ^ 31 \<Longrightarrow>
   (numEntries t0 + int (length ops) + numDeadEntries t0) * 8 \<le> tableSize t0 * 5 \<Longrightarrow>
   \<forall>(m, h, x)\<in>set ops. x \<noteq> NULL \<and> x \<noteq> HASH_TOMBSTONE \<Longrightarrow>
   \<exists>t. insertAll cmp t0 ops = Some (Inr t) \<and> hash_inv t \<and> tableSize t = tableSize t0 \<and>
       numDeadEntries t = numDeadEntries t0 \<and> numEntries t \<le> numEntries t0 + int (length ops)"
proof (induction ops arbitrary: t0)
  case Nil
  then show ?case by simp
next
  case (Cons op ops)
  obtain mem h x where op: "op = (mem, h, x)" by (cases op) auto
  have x: "x \<noteq> NULL" "x \<noteq> HASH_TOMBSTONE" using Cons.prems(4) unfolding op by auto
  have room: "(numEntries t0 + 1 + numDeadEntries t0) * 8 \<le> tableSize t0 * 5"
    using Cons.prems(3) by simp
  from lookup_add_fits[where cmp = cmp, OF Cons.prems(1) x Cons.prems(2) room, of mem h]
  obtain r t1 where t1: "dvmHashTableLookup mem t0 h x cmp True = Some (Inr (r, t1))" "hash_inv t1"
    "tableSize t1 = tableSize t0" "numDeadEntries t1 = numDeadEntries t0"
    "numEntries t1 \<le> numEntries t0 + 1" by blast
  have small1: "tableSize t1 * 5 < 2 ^ 31" using Cons.prems(2) t1(3) by simp
  have room1: "(numEntries t1 + int (length ops) + numDeadEntries t1) * 8 \<le> tableSize t1 * 5"
    using Cons.prems(3) t1(3,4,5) by simp
  have valid1: "\<forall>(m, h, x)\<in>set ops. x \<noteq> NULL \<and> x \<noteq> HASH_TOMBSTONE"
    using Cons.prems(4) by simp
  from Cons.IH[OF t1(2) small1 room1 valid1]
  obtain t where t: "insertAll cmp t1 ops = Some (Inr t)" "hash_inv t" "tableSize t = tableSize t1"
    "numDeadEntries t = numDeadEntries t1" "numEntries t \<le> numEntries t1 + int (length ops)"
    by blast
  have "insertAll cmp t0 (op # ops) = Some (Inr t)" using t1(1) t(1) unfolding op by simp
  then show ?case using t(2,3,4,5) t1(3,4,5) by (intro exI[of _ t]) simp
qed

lemma create_fields:
  assumes "dvmHashTableCreate mem initialSize ff = Inr (Some t)"
  shows "tableSize t = int (dexRoundUpPower2 initialSize)" "numEntries t = 0" "numDeadEntries t = 0"
  using assms by (auto simp: dvmHashTableCreate_def calloc_def split: if_splits)

lemma hint_result:
  assumes nowrap: "unat n * 8 < 2 ^ 32"
    and create: "dvmHashTableCreate mem0 (unat (dvmHashSize n)) ff = Inr (Some t0)"
    and small: "tableSize t0 * 5 < 2 ^ 31"
    and valid: "\<forall>(mem, h, x)\<in>set ops. x \<noteq> NULL \<and> x \<noteq> HASH_TOMBSTONE"
    and len: "length ops \<le> unat n"
  shows "unat n * 8 \<le> unat (dvmHashSize n) * 5 \<and> int (unat (dvmHashSize n)) \<le> tableSize t0 \<and>
     (\<forall>k\<le>length ops. \<exists>t. insertAll cmp t0 (take k ops) = Some (Inr t) \<and>
        tableSize t = tableSize t0 \<and>
        (numEntries t + numDeadEntries t) * 8 \<le> tableSize t * 5)"
proof -
  define N where "N = unat n"
  define H where "H = unat (dvmHashSize n)"
  have b: "N * 8 \<le> H * 5" unfolding N_def H_def using nowrap by (rule dvmHashSize_bound)
  have f: "tableSize t0 = int (dexRoundUpPower2 H)" "numEntries t0 = 0" "numDeadEntries t0 = 0"
    using create_fields[OF create] by (simp_all add: H_def)
  have "H \<le> dexRoundUpPower2 H" by (rule dexRoundUpPower2_ge)
  then have ge: "int H \<le> tableSize t0" using f(1) by simp
  have inv0: "hash_inv t0" using create by (rule create_inv)
  have "int (N * 8) \<le> int (H * 5)" using b by (simp only: of_nat_le_iff)
  then have cap: "int N * 8 \<le> tableSize t0 * 5" using ge by simp
  have steps: "\<forall>k\<le>length ops. \<exists>t. insertAll cmp t0 (take k ops) = Some (Inr t) \<and>
        tableSize t = tableSize t0 \<and> (numEntries t + numDeadEntries t) * 8 \<le> tableSize t * 5"
  proof (intro allI impI)
    fix k assume k: "k \<le> length ops"
    have l: "length (take k ops) = k" using k by simp
    have "k \<le> N" using k len by (simp add: N_def)
    then have "int k \<le> int N" by simp
    then have room: "(numEntries t0 + int (length (take k ops)) + numDeadEntries t0) * 8 \<le> tableSize t0 * 5"
      using cap f(2,3) l by simp
    have v: "\<forall>(m, h, x)\<in>set (take k ops). x \<noteq> NULL \<and> x \<noteq> HASH_TOMBSTONE"
      using valid by (meson in_set_takeD)
    from insertAll_no_resize[where cmp = cmp, OF inv0 small room v]
    obtain t where t: "insertAll cmp t0 (take k ops) = Some (Inr t)" "hash_inv t"
      "tableSize t = tableSize t0" by blast
    have "(numEntries t + numDeadEntries t) * 8 \<le> tableSize t * 5"
      using t(2) by (simp add: hash_inv_def LOAD_DENOM_def LOAD_NUMER_def)
    then show "\<exists>t. insertAll cmp t0 (take k ops) = Some (Inr t) \<and>
        tableSize t = tableSize t0 \<and> (numEntries t + numDeadEntries t) * 8 \<le> tableSize t * 5"
      using t(1,3) by blast
  qed
  show ?thesis using b ge steps unfolding N_def H_def by blast
qed

text \<open>
  C10, amended. For every \<open>n\<close> whose product \<open>n * 8\<close> does not wrap around in \<^verbatim>\<open>size_t\<close>,
  \<open>n * 8 \<le> dvmHashSize n * 5\<close>. A table created with the hint \<open>dvmHashSize n\<close> has at least
  that capacity; if five times its capacity fits an \<^verbatim>\<open>int\<close>, then after each of any \<open>n\<close>
  insertions of such a table the capacity is still the initial one (no resize has
  happened, whether an allocation would have succeeded or not) and the resize
  condition \<open>(numEntries + numDeadEntries) * 8 > tableSize * 5\<close> is false.
\<close>

theorem hint_absorbs:
  assumes "unat n * 8 < 2 ^ 32"
    and "dvmHashTableCreate mem0 (unat (dvmHashSize n)) ff = Inr (Some t0)"
    and "tableSize t0 * 5 < 2 ^ 31"
    and "\<forall>(mem, h, x)\<in>set ops. x \<noteq> NULL \<and> x \<noteq> HASH_TOMBSTONE"
    and "length ops \<le> unat n"
  shows "unat n * 8 \<le> unat (dvmHashSize n) * 5 \<and> int (unat (dvmHashSize n)) \<le> tableSize t0 \<and>
     (\<forall>k\<le>length ops. \<exists>t. insertAll cmpFunc t0 (take k ops) = Some (Inr t) \<and>
        tableSize t = tableSize t0 \<and>
        (numEntries t + numDeadEntries t) * 8 \<le> tableSize t * 5)"
  using hint_result[OF assms] .

theorem hint_absorbs_witness:
  "unat (3 :: 32 word) * 8 < 2 ^ 32 \<and> dvmHashSize 3 = 5 \<and>
   dvmHashTableCreate True (unat (dvmHashSize 3)) False = Inr (Some emptyTable8) \<and>
   tableSize emptyTable8 * 5 < 2 ^ 31 \<and>
   unat (3 :: 32 word) * 8 \<le> unat (dvmHashSize 3) * 5 \<and>
   insertAll ptrEq emptyTable8 [(False, 1, 5), (False, 1, 7), (False, 2, 9)] = Some (Inr filledTable8) \<and>
   tableSize filledTable8 = tableSize emptyTable8 \<and>
   (numEntries filledTable8 + numDeadEntries filledTable8) * 8 \<le> tableSize filledTable8 * 5"
proof -
  let ?ops = "[(False, 1, 5), (False, 1, 7), (False, 2, 9)] :: (bool \<times> u4 \<times> ptr) list"
  have h: "dvmHashSize 3 = 5" by (simp add: dvmHashSize_def LOAD_DENOM_def LOAD_NUMER_def)
  have nowrap: "unat (3 :: 32 word) * 8 < 2 ^ 32" by simp
  have create: "dvmHashTableCreate True (unat (dvmHashSize 3)) False = Inr (Some emptyTable8)"
    unfolding h by code_simp
  have small: "tableSize emptyTable8 * 5 < 2 ^ 31" by (simp add: emptyTable8_def)
  have valid: "\<forall>(mem, h, x)\<in>set ?ops. x \<noteq> NULL \<and> x \<noteq> HASH_TOMBSTONE"
    by (simp add: NULL_def HASH_TOMBSTONE_def)
  have len: "length ?ops \<le> unat (3 :: 32 word)" by simp
  have run: "insertAll ptrEq emptyTable8 ?ops = Some (Inr filledTable8)" by code_simp
  from hint_absorbs[where cmpFunc = ptrEq, OF nowrap create small valid len]
  have b: "unat (3 :: 32 word) * 8 \<le> unat (dvmHashSize 3) * 5"
    and s: "\<forall>k\<le>length ?ops. \<exists>t. insertAll ptrEq emptyTable8 (take k ?ops) = Some (Inr t) \<and>
        tableSize t = tableSize emptyTable8 \<and>
        (numEntries t + numDeadEntries t) * 8 \<le> tableSize t * 5"
    by blast+
  from s[rule_format, of 3] run
  have "tableSize filledTable8 = tableSize emptyTable8 \<and>
        (numEntries filledTable8 + numDeadEntries filledTable8) * 8 \<le> tableSize filledTable8 * 5"
    by simp
  then show ?thesis using h nowrap create small b run by simp
qed

section \<open>Tables obtained with any removal\<close>

text \<open>
  The counts enter a lookup only through the load test, and there only by their sum, which
  a removal of the sentinel leaves as it was; the probe loop reads the slots and the size.
  So the invariant up to a move between the counts holds in every obtainable table. A
  resize returns only when the scan of \<^verbatim>\<open>countTombStones\<close> equals \<open>numDeadEntries\<close>, that
  is when no unit has been moved.
\<close>

lemma shiftCounts_fields [simp]:
  "pEntries (shiftCounts k t) = pEntries t" "tableSize (shiftCounts k t) = tableSize t"
  "numEntries (shiftCounts k t) = numEntries t + k"
  "numDeadEntries (shiftCounts k t) = numDeadEntries t - k"
  "freeCalls (shiftCounts k t) = freeCalls t" "freeFunc (shiftCounts k t) = freeFunc t"
  by (simp_all add: shiftCounts_def)

lemma shiftCounts_0 [simp]: "shiftCounts 0 t = t"
  by (simp add: shiftCounts_def)

lemma hash_inv_slots_inv: "hash_inv t \<Longrightarrow> slots_inv t"
  unfolding slots_inv_def by (rule exI[of _ 0]) simp

lemma lookupProbe_shift: "lookupProbe (shiftCounts k t) h x cmp = lookupProbe t h x cmp"
  by (simp add: lookupProbe_def firstSlot_def)

lemma lookup_Inr_cases:
  assumes "dvmHashTableLookup mem t h x cmp doAdd = Some (Inr (r, t'))"
  shows "t' = t \<or> (\<exists>i c. lookupProbe t h x cmp = Some (i, c) \<and> i < length (pEntries t) \<and>
           data (pEntries t ! i) = NULL \<and>
           afterAdd mem (t\<lparr>pEntries := (pEntries t)[i := \<lparr>hashValue = h, data = x\<rparr>],
                           numEntries := numEntries t + 1\<rparr>) x = Some (Inr (r, t')))"
  using assms by (auto simp: dvmHashTableLookup_def split: if_splits option.splits prod.splits)

lemma afterAdd_Inr_cases:
  assumes "afterAdd mem t x = Some (Inr (r, t'))"
  shows "(t' = t \<and> (numEntries t + numDeadEntries t) * 8 \<le> tableSize t * 5) \<or>
         countTombStones t = numDeadEntries t"
  using assms
  by (auto simp: afterAdd_def resizeHash_def LOAD_DENOM_def LOAD_NUMER_def
      split: if_splits option.splits sum.splits prod.splits)

lemma afterAdd_in_bounds: "afterAdd mem t x \<noteq> Some (Inl OutOfBounds)"
  by (auto simp: afterAdd_def resizeHash_def split: if_splits option.splits sum.splits prod.splits)

lemma fill_slot_ok:
  assumes tok: "table_ok t" and x: "x \<noteq> NULL" "x \<noteq> HASH_TOMBSTONE"
    and s: "s < length (pEntries t)" "data (pEntries t ! s) = NULL"
      "pathFull (pEntries t) (homeSlot (pEntries t) h) c"
      "s = (homeSlot (pEntries t) h + c) mod length (pEntries t)" "c < length (pEntries t)"
  shows "table_ok (t\<lparr>pEntries := (pEntries t)[s := \<lparr>hashValue = h, data = x\<rparr>],
                     numEntries := numEntries t + 1\<rparr>)"
proof -
  let ?es = "pEntries t" and ?n = "length (pEntries t)"
  let ?e = "\<lparr>hashValue = h, data = x\<rparr>"
  have pos: "0 < ?n" using s(1) by (cases ?es) auto
  have home: "homeSlot ?es h < ?n" using pos by (simp add: homeSlot_def)
  have live_e: "isLive ?e" using x by (simp add: isLive_def)
  have notlive: "\<not> isLive (?es ! s)" using s(2) by (simp add: isLive_def)
  have dist: "probeDist ?n (homeSlot ?es h) s = c"
    using probeDist_unique[OF home s(5)] s(4) by simp
  have chain: "chain_ok (?es[s := ?e])"
    using chain_ok_fill[OF _ s(1) live_e] tok s(3) dist by (simp add: table_ok_def)
  have lc: "liveCount (?es[s := ?e]) = Suc (liveCount ?es)"
    by (rule liveCount_fill[OF s(1) notlive live_e])
  have dc: "deadCount (?es[s := ?e]) = deadCount ?es"
    using deadCount_fill[OF s(1,2)] x by simp
  show ?thesis using tok chain lc dc by (simp add: table_ok_def)
qed

lemma lookup_slots_inv:
  assumes inv: "slots_inv t" and res: "dvmHashTableLookup mem t h x cmp doAdd = Some (Inr (r, t'))"
  shows "slots_inv t'"
proof -
  let ?es = "pEntries t" and ?n = "length (pEntries t)"
  obtain k where k: "hash_inv (shiftCounts k t)" using inv by (auto simp: slots_inv_def)
  have x: "x \<noteq> NULL" "x \<noteq> HASH_TOMBSTONE"
    using res by (auto simp: dvmHashTableLookup_def split: if_splits)
  from lookup_Inr_cases[OF res] show ?thesis
  proof
    assume "t' = t"
    then show ?thesis using inv by simp
  next
    assume "\<exists>i c. lookupProbe t h x cmp = Some (i, c) \<and> i < ?n \<and> data (?es ! i) = NULL \<and>
           afterAdd mem (t\<lparr>pEntries := ?es[i := \<lparr>hashValue = h, data = x\<rparr>],
                           numEntries := numEntries t + 1\<rparr>) x = Some (Inr (r, t'))"
    then obtain i c where ic: "lookupProbe t h x cmp = Some (i, c)" "i < ?n" "data (?es ! i) = NULL"
      "afterAdd mem (t\<lparr>pEntries := ?es[i := \<lparr>hashValue = h, data = x\<rparr>],
                           numEntries := numEntries t + 1\<rparr>) x = Some (Inr (r, t'))"
      by blast
    let ?t1 = "t\<lparr>pEntries := ?es[i := \<lparr>hashValue = h, data = x\<rparr>], numEntries := numEntries t + 1\<rparr>"
    obtain c' where c': "c' < ?n"
      "lookupProbe (shiftCounts k t) h x cmp = Some ((homeSlot ?es h + c') mod ?n, c')"
      "\<forall>m<c'. nonstop (?es ! ((homeSlot ?es h + m) mod ?n)) h x cmp"
      using lookupProbe_inv[OF k, of h x cmp] by auto
    have eqs: "i = (homeSlot ?es h + c) mod ?n" "c = c'"
      using c'(2) ic(1) by (simp_all add: lookupProbe_shift)
    have full: "pathFull ?es (homeSlot ?es h) c"
      using c'(3) eqs(2) by (simp add: pathFull_def nonstop_def)
    have tok: "table_ok (shiftCounts k t)" using k by (simp add: hash_inv_def)
    have sh: "shiftCounts k ?t1 =
        (shiftCounts k t)\<lparr>pEntries := (pEntries (shiftCounts k t))[i := \<lparr>hashValue = h, data = x\<rparr>],
                           numEntries := numEntries (shiftCounts k t) + 1\<rparr>"
      by (simp add: shiftCounts_def)
    have tok1: "table_ok (shiftCounts k ?t1)"
      unfolding sh using fill_slot_ok[OF tok x, of i h c] ic(2,3) full eqs c'(1) by simp
    from afterAdd_Inr_cases[OF ic(4)] show ?thesis
    proof
      assume a: "t' = ?t1 \<and> (numEntries ?t1 + numDeadEntries ?t1) * 8 \<le> tableSize ?t1 * 5"
      then have "hash_inv (shiftCounts k ?t1)"
        using tok1 by (simp add: hash_inv_def LOAD_DENOM_def LOAD_NUMER_def)
      then show ?thesis using a by (auto simp: slots_inv_def)
    next
      assume a: "countTombStones ?t1 = numDeadEntries ?t1"
      have "tableSize ?t1 = int (length (pEntries ?t1))" using tok1 by (simp add: table_ok_def)
      from countTombStones_eq[OF this] a
      have "numDeadEntries ?t1 = int (deadCount (pEntries ?t1))" by simp
      moreover have "numDeadEntries ?t1 - k = int (deadCount (pEntries ?t1))"
        using tok1 by (simp add: table_ok_def)
      ultimately have "k = 0" by simp
      then have "hash_inv t" using k by simp
      from lookup_preserves[OF this res] show ?thesis by (rule hash_inv_slots_inv)
    qed
  qed
qed

lemma killSlot_tombstone:
  assumes "data (pEntries t ! s) = HASH_TOMBSTONE"
  shows "shiftCounts (k + 1) (killSlot t s) = shiftCounts k t"
proof -
  have "(pEntries t ! s)\<lparr>data := HASH_TOMBSTONE\<rparr> = pEntries t ! s"
    using assms by (cases "pEntries t ! s") simp
  then show ?thesis by (simp add: shiftCounts_def killSlot_def)
qed

lemma killSlot_shift: "shiftCounts k (killSlot t s) = killSlot (shiftCounts k t) s"
  by (simp add: shiftCounts_def killSlot_def)

lemma remove_slots_inv:
  assumes inv: "slots_inv t" and res: "dvmHashTableRemove t h item = Some (Inr (b, t'))"
  shows "slots_inv t'"
proof -
  let ?es = "pEntries t" and ?n = "length (pEntries t)"
  obtain k where k: "hash_inv (shiftCounts k t)" using inv by (auto simp: slots_inv_def)
  have wf: "tableSize t = int ?n" using k by (simp add: hash_inv_def table_ok_def)
  obtain K where K: "?n = 2 ^ K" using k by (auto simp: hash_inv_def table_ok_def)
  obtain j where j: "j < ?n" "data (?es ! j) = NULL" using hash_inv_empty_slot[OF k] by auto
  then have stops: "?n = 1 \<or> (\<exists>j<?n. data (?es ! j) = NULL \<or> data (?es ! j) = item)" by blast
  from remove_result[OF wf K stops, of h] res
  have "t' = t \<or> (\<exists>c. pathFull ?es (unat h mod ?n) (Suc c) \<and>
            data (?es ! ((unat h mod ?n + c) mod ?n)) = item \<and>
            t' = killSlot t ((unat h mod ?n + c) mod ?n))"
    by auto
  then show ?thesis
  proof
    assume "t' = t"
    then show ?thesis using inv by simp
  next
    assume "\<exists>c. pathFull ?es (unat h mod ?n) (Suc c) \<and>
            data (?es ! ((unat h mod ?n + c) mod ?n)) = item \<and>
            t' = killSlot t ((unat h mod ?n + c) mod ?n)"
    then obtain c where c: "pathFull ?es (unat h mod ?n) (Suc c)"
      "data (?es ! ((unat h mod ?n + c) mod ?n)) = item"
      "t' = killSlot t ((unat h mod ?n + c) mod ?n)" by blast
    let ?s = "(unat h mod ?n + c) mod ?n"
    have "0 < ?n" using K by simp
    then have s: "?s < length (pEntries (shiftCounts k t))" by simp
    have nn: "data (?es ! ?s) \<noteq> NULL" using c(1) by (simp add: pathFull_def)
    show ?thesis
    proof (cases "item = HASH_TOMBSTONE")
      case True
      then have "shiftCounts (k + 1) t' = shiftCounts k t"
        using killSlot_tombstone[of t ?s k] c(2,3) by simp
      then have "hash_inv (shiftCounts (k + 1) t')" using k by simp
      then show ?thesis by (auto simp: slots_inv_def)
    next
      case False
      then have "isLive (pEntries (shiftCounts k t) ! ?s)" using c(2) nn by (simp add: isLive_def)
      from killSlot_inv[OF k s this] have "hash_inv (shiftCounts k t')"
        using c(3) by (simp add: killSlot_shift)
      then show ?thesis by (auto simp: slots_inv_def)
    qed
  qed
qed

lemma clear_slots_inv:
  assumes "slots_inv t"
  shows "slots_inv (dvmHashTableClear t)"
proof -
  obtain k where k: "hash_inv (shiftCounts k t)" using assms by (auto simp: slots_inv_def)
  have "dvmHashTableClear (shiftCounts k t) = dvmHashTableClear t"
    by (simp add: dvmHashTableClear_def shiftCounts_def split: prod.splits)
  then show ?thesis using clear_preserves[OF k] by (simp add: hash_inv_slots_inv)
qed

lemma foreachRemoveLoop_shift:
  "foreachRemoveLoop func i (shiftCounts k t) =
     (case foreachRemoveLoop func i t of (v, t') \<Rightarrow> (v, shiftCounts k t'))"
proof (induction i arbitrary: t)
  case 0
  then show ?case by simp
next
  case (Suc i)
  let ?t1 = "t\<lparr>pEntries := (pEntries t)[i := (pEntries t ! i)\<lparr>data := HASH_TOMBSTONE\<rparr>],
                numEntries := numEntries t - 1, numDeadEntries := numDeadEntries t + 1\<rparr>"
  have eq: "(shiftCounts k t)\<lparr>pEntries := (pEntries t)[i := (pEntries t ! i)\<lparr>data := HASH_TOMBSTONE\<rparr>],
                numEntries := numEntries t + k - 1, numDeadEntries := numDeadEntries t - k + 1\<rparr>
            = shiftCounts k ?t1"
    by (simp add: shiftCounts_def)
  show ?case using Suc.IH[of t] Suc.IH[of ?t1] by (simp add: eq)
qed

lemma foreachRemove_slots_inv:
  assumes "slots_inv t" and "dvmHashForeachRemove t func = (v, t')"
  shows "slots_inv t'"
proof -
  obtain k where k: "hash_inv (shiftCounts k t)" using assms(1) by (auto simp: slots_inv_def)
  have "dvmHashForeachRemove (shiftCounts k t) func = (v, shiftCounts k t')"
    using assms(2) by (simp add: dvmHashForeachRemove_def foreachRemoveLoop_shift)
  from foreachRemove_preserves[OF k this] show ?thesis by (auto simp: slots_inv_def)
qed

lemma obtainable_inv: "obtainable t \<Longrightarrow> slots_inv t"
proof (induction rule: obtainable.induct)
  case (created mem initialSize ff t)
  then show ?case using create_inv hash_inv_slots_inv by blast
next
  case (looked_up t mem itemHash item cmpFunc doAdd r t')
  then show ?case using lookup_slots_inv by blast
next
  case (removed t itemHash item b t')
  then show ?case using remove_slots_inv by blast
next
  case (cleared t)
  then show ?case using clear_slots_inv by blast
next
  case (swept t func v t')
  then show ?case using foreachRemove_slots_inv by blast
qed

lemma reachable_obtainable: "reachable t \<Longrightarrow> obtainable t"
  by (induction rule: reachable.induct) (auto intro: obtainable.intros)

lemma slots_inv_empty_slot:
  assumes "slots_inv t"
  shows "tableSize t = int (length (pEntries t)) \<and> (\<exists>K\<le>30. length (pEntries t) = 2 ^ K) \<and>
         (\<exists>j<length (pEntries t). data (pEntries t ! j) = NULL)"
proof -
  obtain k where k: "hash_inv (shiftCounts k t)" using assms by (auto simp: slots_inv_def)
  show ?thesis using hash_inv_empty_slot[OF k] k by (simp add: hash_inv_def table_ok_def)
qed

lemma lookup_in_bounds:
  assumes "slots_inv t"
  shows "dvmHashTableLookup mem t h x cmp doAdd \<noteq> Some (Inl OutOfBounds)"
proof -
  obtain k where k: "hash_inv (shiftCounts k t)" using assms by (auto simp: slots_inv_def)
  obtain c where c: "c < length (pEntries t)"
    "lookupProbe (shiftCounts k t) h x cmp =
       Some ((homeSlot (pEntries t) h + c) mod length (pEntries t), c)"
    using lookupProbe_inv[OF k, of h x cmp] by auto
  have "0 < length (pEntries t)" using c(1) by (cases "pEntries t") auto
  then have "(homeSlot (pEntries t) h + c) mod length (pEntries t) < length (pEntries t)"
    by simp
  then show ?thesis using c(2) afterAdd_in_bounds
    by (simp add: dvmHashTableLookup_def lookupProbe_shift)
qed

section \<open>The single-entry table in use\<close>

text \<open>
  A table of one slot that the public operations have produced has that slot empty: the
  first insertion into it exceeds the load factor and doubles it. So the edge case of the
  probe loop is not entered on such a table.
\<close>

lemma reachable_single_slot_empty:
  assumes "reachable t" and "tableSize t = 1"
  shows "data (pEntries t ! 0) = NULL"
proof -
  have inv: "hash_inv t" using assms(1) by (rule reachable_inv)
  then have "length (pEntries t) = 1" using assms(2) by (simp add: hash_inv_def table_ok_def)
  moreover obtain j where "j < length (pEntries t)" "data (pEntries t ! j) = NULL"
    using hash_inv_empty_slot[OF inv] by blast
  ultimately show ?thesis by simp
qed

lemma single_slot_lookup:
  assumes "obtainable t" and "tableSize t = 1" and "item \<noteq> NULL" and "item \<noteq> HASH_TOMBSTONE"
  shows "length (pEntries t) = 1 \<and> data (pEntries t ! 0) = NULL \<and>
         lookupProbe t itemHash item cmpFunc = Some (0, 0) \<and>
         dvmHashTableLookup mem t itemHash item cmpFunc False = Some (Inr (NULL, t)) \<and>
         dvmHashTableLookup mem t itemHash item cmpFunc doAdd \<noteq> Some (Inl OutOfBounds)"
proof -
  have inv: "slots_inv t" using assms(1) by (rule obtainable_inv)
  from slots_inv_empty_slot[OF inv] assms(2)
  have len: "length (pEntries t) = 1" and "\<exists>j<length (pEntries t). data (pEntries t ! j) = NULL"
    by auto
  then have null: "data (pEntries t ! 0) = NULL" by auto
  have "firstSlot t itemHash = unat itemHash mod 2 ^ 0"
    using firstSlot_pow2[of t 0 itemHash] assms(2) len by simp
  then have fs: "firstSlot t itemHash = 0" by simp
  have probe: "lookupProbe t itemHash item cmpFunc = Some (0, 0)"
    using fs null assms(2) by (simp add: lookupProbe_def probeLoop.simps)
  have look: "dvmHashTableLookup mem t itemHash item cmpFunc False = Some (Inr (NULL, t))"
    using probe null len assms(2,3,4) by (simp add: dvmHashTableLookup_def)
  show ?thesis using len null probe look lookup_in_bounds[OF inv] by simp
qed




text \<open>
  A table of one slot whose slot is occupied is not among the obtainable ones. Built
  field by field, it is the only kind of table on which the probe loop takes the
  edge-case \<^verbatim>\<open>break\<close>, which leaves \<open>pEntry\<close> at \<open>pEnd\<close>.
\<close>

lemma fullSingle_not_obtainable: "\<not> obtainable fullSingle"
proof
  assume "obtainable fullSingle"
  from single_slot_lookup[OF this, of 6 0 ptrEq True False]
  show False by (simp add: fullSingle_def NULL_def HASH_TOMBSTONE_def)
qed

lemma fullSingle_probe:
  "lookupProbe fullSingle 0 6 ptrEq = Some (1, 0) \<and> length (pEntries fullSingle) = 1"
  by (simp add: lookupProbe_def firstSlot_def fullSingle_def
      probeLoop.simps isMatch_def ptrEq_def NULL_def HASH_TOMBSTONE_def)

section \<open>A removal that is given the tombstone sentinel\<close>

lemma remove_sentinel:
  "dvmHashTableRemove tombTable 1 HASH_TOMBSTONE = Some (Inr (True, driftTable))"
  by code_simp

lemma drift_counts:
  "numEntries driftTable = 0 \<and> liveCount (pEntries driftTable) = 1 \<and>
   numDeadEntries driftTable = 2 \<and> deadCount (pEntries driftTable) = 1 \<and>
   countTombStones driftTable = 1"
  by code_simp

lemma drift_assert:
  "dvmHashTableLookup True driftTable 2 9 ptrEq True = Some (Inl AssertFailed)"
  by code_simp

text \<open>
  C9. The counts do not match the slots in every state that the public operations reach.
  \<^verbatim>\<open>dvmHashTableRemove\<close> compares the data of a slot with its item and, unlike
  \<^verbatim>\<open>dvmHashTableLookup\<close>, has no assertion that the item is not the tombstone sentinel. On
  \<open>tombTable\<close>, reached by a creation, two insertions and a removal, the removal of the
  sentinel with hash 1 stops on the tombstone of slot 1, returns true, decrements
  \<open>numEntries\<close> and increments \<open>numDeadEntries\<close>; the slots stay as they were. The table
  then has \<open>numEntries\<close> 0 over one occupied slot and \<open>numDeadEntries\<close> 2 over one tombstone
  slot, and the next insertion that resizes fails the assertion of \<^verbatim>\<open>resizeHash\<close> that the
  scan of \<^verbatim>\<open>countTombStones\<close> equals \<open>numDeadEntries\<close>.
\<close>

theorem sentinel_removal_breaks_counts:
  "reachable tombTable \<and>
   dvmHashTableRemove tombTable 1 HASH_TOMBSTONE = Some (Inr (True, driftTable)) \<and>
   numEntries driftTable = 0 \<and> liveCount (pEntries driftTable) = 1 \<and>
   numDeadEntries driftTable = 2 \<and> deadCount (pEntries driftTable) = 1 \<and>
   countTombStones driftTable = 1 \<and>
   dvmHashTableLookup True driftTable 2 9 ptrEq True = Some (Inl AssertFailed)"
  using reachable_tombTable remove_sentinel drift_counts drift_assert by simp

theorem sentinel_removal_breaks_counts_witness:
  "dvmHashTableRemove tombTable 1 HASH_TOMBSTONE = Some (Inr (True, driftTable)) \<and>
   numEntries driftTable = 0 \<and> liveCount (pEntries driftTable) = 1"
  using sentinel_removal_breaks_counts by simp

end
